theory Spec2Isabelle
  imports Main "HOL-Library.AList" "HOL-Library.Sublist" "HOL-Library.List_Lexorder"
    "HOL-Library.Char_ord"
begin

chapter \<open>periodic-osmium: the cache service and its Express middleware\<close>

text \<open>
  A shallow embedding of \<^verbatim>\<open>CacheService\<close> (core/cache.ts) and of the GET branch of
  \<^verbatim>\<open>cacheMiddleware\<close> (adapters/express.ts). The platform the code runs on is modelled
  next to it: JavaScript strings, \<^verbatim>\<open>JSON.stringify\<close>/\<^verbatim>\<open>JSON.parse\<close>, Node's
  \<^verbatim>\<open>Buffer\<close> base64 codec, and the Redis commands the service sends through ioredis
  (GET, SETEX, SADD, EXPIRE, DEL, SMEMBERS, SCAN and pipelines).
\<close>

section \<open>Platform: strings\<close>

text \<open>
  A JavaScript string is a sequence of UTF-16 code units. It is represented here by its
  bytes in generalized UTF-8: a code point outside the surrogate range, and a surrogate
  pair, by its UTF-8 sequence of one to four bytes, and an unpaired surrogate
  (\<^verbatim>\<open>D800\<close> to \<^verbatim>\<open>DFFF\<close>) by the three bytes \<^verbatim>\<open>ED A0..BF 80..BF\<close>. For a string without
  unpaired surrogates this is its UTF-8 encoding. \<^verbatim>\<open>data.length\<close> counts UTF-16 code
  units: every lead byte of a one, two or three byte sequence stands for one unit, the
  lead byte of a four byte sequence for two (a surrogate pair), and continuation bytes for
  none.
\<close>

definition utf16_units :: "char \<Rightarrow> nat" where
  "utf16_units c =
     (let b = (of_char c :: nat) in
      if 128 \<le> b \<and> b < 192 then 0 else if 240 \<le> b then 2 else 1)"

definition js_length :: "string \<Rightarrow> nat" where
  "js_length s = sum_list (map utf16_units s)"

text \<open>
  The byte lists that represent a string. \<open>utf8_valid False\<close> accepts the well-formed
  UTF-8 texts: no overlong form, no surrogate, nothing above \<^verbatim>\<open>10FFFF\<close>.
  \<open>utf8_valid True\<close> accepts an unpaired surrogate as well; a lead surrogate directly
  before a trail surrogate is a pair and has its four byte form only. So \<open>js_string\<close>
  holds of the representations of the JavaScript strings, each string having one, and
  \<open>well_formed\<close> of those of the strings without unpaired surrogates
  (\<^verbatim>\<open>String.prototype.isWellFormed\<close>).
\<close>

definition cont :: "char \<Rightarrow> bool" where
  "cont c = (128 \<le> (of_char c :: nat) \<and> (of_char c :: nat) < 192)"

definition second3 :: "bool \<Rightarrow> char \<Rightarrow> char \<Rightarrow> bool" where
  "second3 surrogates c c1 =
     (let b = (of_char c :: nat); b1 = (of_char c1 :: nat) in
      if b = 224 then 160 \<le> b1 \<and> b1 < 192
      else if b = 237 \<and> \<not> surrogates then 128 \<le> b1 \<and> b1 < 160
      else 128 \<le> b1 \<and> b1 < 192)"

definition second4 :: "char \<Rightarrow> char \<Rightarrow> bool" where
  "second4 c c1 =
     (let b = (of_char c :: nat); b1 = (of_char c1 :: nat) in
      if b = 240 then 144 \<le> b1 \<and> b1 < 192
      else if b = 244 then 128 \<le> b1 \<and> b1 < 144
      else 128 \<le> b1 \<and> b1 < 192)"

definition lone_surrogate :: "char \<Rightarrow> char \<Rightarrow> char \<Rightarrow> bool" where
  "lone_surrogate c c1 c2 =
     ((of_char c :: nat) = 237 \<and> 160 \<le> (of_char c1 :: nat) \<and> (of_char c1 :: nat) < 192 \<and> cont c2)"

definition lead_surrogate :: "char \<Rightarrow> char \<Rightarrow> bool" where
  "lead_surrogate c c1 =
     ((of_char c :: nat) = 237 \<and> 160 \<le> (of_char c1 :: nat) \<and> (of_char c1 :: nat) < 176)"

definition trail_first :: "string \<Rightarrow> bool" where
  "trail_first s =
     (case s of c # c1 # r \<Rightarrow> (of_char c :: nat) = 237 \<and> 176 \<le> (of_char c1 :: nat) | _ \<Rightarrow> False)"

fun utf8_valid :: "bool \<Rightarrow> string \<Rightarrow> bool" where
  "utf8_valid g [] = True"
| "utf8_valid g (c # cs) =
     (let b = (of_char c :: nat) in
      if b < 128 then utf8_valid g cs
      else if 194 \<le> b \<and> b < 224 then
        (case cs of c1 # r \<Rightarrow> cont c1 \<and> utf8_valid g r | _ \<Rightarrow> False)
      else if 224 \<le> b \<and> b < 240 then
        (case cs of
           c1 # c2 # r \<Rightarrow>
             second3 g c c1 \<and> cont c2 \<and> \<not> (lead_surrogate c c1 \<and> trail_first r)
             \<and> utf8_valid g r
         | _ \<Rightarrow> False)
      else if 240 \<le> b \<and> b < 245 then
        (case cs of
           c1 # c2 # c3 # r \<Rightarrow> second4 c c1 \<and> cont c2 \<and> cont c3 \<and> utf8_valid g r
         | _ \<Rightarrow> False)
      else False)"

declare utf8_valid.simps(2) [simp del]

definition js_string :: "string \<Rightarrow> bool" where
  "js_string s = utf8_valid True s"

definition well_formed :: "string \<Rightarrow> bool" where
  "well_formed s = utf8_valid False s"

text \<open>\<^verbatim>\<open>Array.prototype.join\<close>.\<close>

fun join :: "string \<Rightarrow> string list \<Rightarrow> string" where
  "join sep [] = []"
| "join sep [x] = x"
| "join sep (x # y # ys) = x @ sep @ join sep (y # ys)"

section \<open>Platform: Buffer\<close>

text \<open>
  \<^verbatim>\<open>Buffer.from(data)\<close> holds the UTF-8 encoding of the string \<^verbatim>\<open>data\<close>, in which an
  unpaired surrogate is written as U+FFFD, the bytes \<^verbatim>\<open>EF BF BD\<close>.
\<close>

definition replacement :: string where
  "replacement = [CHR 0xEF, CHR 0xBF, CHR 0xBD]"

fun utf8_encode :: "string \<Rightarrow> string" where
  "utf8_encode [] = []"
| "utf8_encode (c # cs) =
     (case cs of
        c1 # c2 # r \<Rightarrow>
          if lone_surrogate c c1 c2 then replacement @ utf8_encode r
          else c # utf8_encode cs
      | _ \<Rightarrow> c # utf8_encode cs)"

declare utf8_encode.simps(2) [simp del]

text \<open>
  \<^verbatim>\<open>buf.toString('utf-8')\<close> decodes as the Encoding standard prescribes: a well-formed
  sequence gives its character; a byte that cannot begin a sequence gives one U+FFFD; and
  so does the begun part of a sequence that is cut short by the end of the buffer or by a
  byte that cannot continue it, and that byte is then read again.
\<close>

fun utf8_decode :: "string \<Rightarrow> string" where
  "utf8_decode [] = []"
| "utf8_decode (c # cs) =
     (let b = (of_char c :: nat) in
      if b < 128 then c # utf8_decode cs
      else if 194 \<le> b \<and> b < 224 then
        (case cs of
           [] \<Rightarrow> replacement
         | c1 # r \<Rightarrow>
             if cont c1 then c # c1 # utf8_decode r else replacement @ utf8_decode cs)
      else if 224 \<le> b \<and> b < 240 then
        (case cs of
           [] \<Rightarrow> replacement
         | c1 # r \<Rightarrow>
             if second3 False c c1 then
               (case r of
                  [] \<Rightarrow> replacement
                | c2 # r' \<Rightarrow>
                    if cont c2 then c # c1 # c2 # utf8_decode r'
                    else replacement @ utf8_decode r)
             else replacement @ utf8_decode cs)
      else if 240 \<le> b \<and> b < 245 then
        (case cs of
           [] \<Rightarrow> replacement
         | c1 # r \<Rightarrow>
             if second4 c c1 then
               (case r of
                  [] \<Rightarrow> replacement
                | c2 # r' \<Rightarrow>
                    if cont c2 then
                      (case r' of
                         [] \<Rightarrow> replacement
                       | c3 # r'' \<Rightarrow>
                           if cont c3 then c # c1 # c2 # c3 # utf8_decode r''
                           else replacement @ utf8_decode r')
                    else replacement @ utf8_decode r)
             else replacement @ utf8_decode cs)
      else replacement @ utf8_decode cs)"

declare utf8_decode.simps(2) [simp del]

text \<open>
  \<^verbatim>\<open>toString('base64')\<close> writes the bytes in the standard alphabet with padding.
  \<^verbatim>\<open>Buffer.from(text, 'base64')\<close> is lenient: it stops at the padding, skips characters
  outside the alphabet and accepts the URL-safe letters.
\<close>

definition b64_char :: "nat \<Rightarrow> char" where
  "b64_char n =
     (if n < 26 then char_of (65 + n)
      else if n < 52 then char_of (71 + n)
      else if n < 62 then char_of (n - 4)
      else if n = 62 then CHR ''+'' else CHR ''/'')"

definition b64_val :: "char \<Rightarrow> nat option" where
  "b64_val c =
     (let b = (of_char c :: nat) in
      if 65 \<le> b \<and> b \<le> 90 then Some (b - 65)
      else if 97 \<le> b \<and> b \<le> 122 then Some (b - 71)
      else if 48 \<le> b \<and> b \<le> 57 then Some (b + 4)
      else if c = CHR ''+'' \<or> c = CHR ''-'' then Some 62
      else if c = CHR ''/'' \<or> c = CHR ''_'' then Some 63
      else None)"

fun b64_encode :: "string \<Rightarrow> string" where
  "b64_encode [] = []"
| "b64_encode [a] =
     (let n = (of_char a :: nat)
      in [b64_char (n div 4), b64_char (n mod 4 * 16), CHR ''='', CHR ''=''])"
| "b64_encode [a, b] =
     (let n = (of_char a :: nat) * 256 + of_char b
      in [b64_char (n div 1024), b64_char (n div 16 mod 64), b64_char (n mod 16 * 4), CHR ''=''])"
| "b64_encode (a # b # c # rest) =
     (let n = ((of_char a :: nat) * 256 + of_char b) * 256 + of_char c
      in [b64_char (n div 262144), b64_char (n div 4096 mod 64),
          b64_char (n div 64 mod 64), b64_char (n mod 64)] @ b64_encode rest)"

fun b64_sextets :: "string \<Rightarrow> nat list" where
  "b64_sextets [] = []"
| "b64_sextets (c # cs) =
     (if c = CHR ''='' then []
      else case b64_val c of None \<Rightarrow> b64_sextets cs | Some v \<Rightarrow> v # b64_sextets cs)"

fun b64_decode_vals :: "nat list \<Rightarrow> string" where
  "b64_decode_vals (a # b # c # d # rest) =
     (let n = ((a * 64 + b) * 64 + c) * 64 + d
      in [char_of (n div 65536), char_of (n div 256 mod 256), char_of (n mod 256)]
         @ b64_decode_vals rest)"
| "b64_decode_vals [a, b, c] =
     (let n = (a * 64 + b) * 64 + c
      in [char_of (n div 1024), char_of (n div 4 mod 256)])"
| "b64_decode_vals [a, b] = [char_of ((a * 64 + b) div 16)]"
| "b64_decode_vals _ = []"

definition b64_decode :: "string \<Rightarrow> string" where
  "b64_decode s = b64_decode_vals (b64_sextets s)"

section \<open>Platform: JSON\<close>

text \<open>
  The values a caller can hand to \<^verbatim>\<open>set\<close> (its parameter has type \<^verbatim>\<open>any\<close>):
  \<^verbatim>\<open>undefined\<close>, \<^verbatim>\<open>null\<close>, booleans, integral numbers, strings, arrays and plain
  objects (their own enumerable properties in enumeration order). A number is an integer
  that \<^verbatim>\<open>JSON.stringify\<close> writes with all its digits; numbers with a fraction, and those
  written with an exponent (from \<^verbatim>\<open>1e21\<close> on), are not modelled.
\<close>

datatype jsvalue =
    JUndefined
  | JNull
  | JBool bool
  | JNum int
  | JStr string
  | JArr "jsvalue list"
  | JObj "(string \<times> jsvalue) list"

text \<open>
  \<^verbatim>\<open>JSON.stringify\<close>: a string is quoted with the escapes of QuoteJSONString, which
  writes an unpaired surrogate as \<^verbatim>\<open>\\udXXX\<close>, so that the text has none; an
  \<^verbatim>\<open>undefined\<close> array element is written \<^verbatim>\<open>null\<close>, an \<^verbatim>\<open>undefined\<close> property is left
  out, and \<^verbatim>\<open>JSON.stringify(undefined)\<close> is \<^verbatim>\<open>undefined\<close>, not a string.
\<close>

definition hex_digit :: "nat \<Rightarrow> char" where
  "hex_digit n = (if n < 10 then char_of (48 + n) else char_of (87 + n))"

definition json_escape :: "char \<Rightarrow> string" where
  "json_escape c =
     (let b = (of_char c :: nat) in
      if b = 34 then [CHR 0x5C, CHR 0x22]
      else if b = 92 then [CHR 0x5C, CHR 0x5C]
      else if b = 8 then [CHR 0x5C, CHR ''b'']
      else if b = 12 then [CHR 0x5C, CHR ''f'']
      else if b = 10 then [CHR 0x5C, CHR ''n'']
      else if b = 13 then [CHR 0x5C, CHR ''r'']
      else if b = 9 then [CHR 0x5C, CHR ''t'']
      else if b < 32 then
        [CHR 0x5C, CHR ''u'', CHR ''0'', CHR ''0'', hex_digit (b div 16), hex_digit (b mod 16)]
      else [c])"

definition surrogate_escape :: "char \<Rightarrow> char \<Rightarrow> string" where
  "surrogate_escape c1 c2 =
     (let u = 53248 + ((of_char c1 :: nat) mod 64) * 64 + (of_char c2 :: nat) mod 64 in
      [CHR 0x5C, CHR ''u'', hex_digit (u div 4096), hex_digit (u div 256 mod 16),
       hex_digit (u div 16 mod 16), hex_digit (u mod 16)])"

fun quote_chars :: "string \<Rightarrow> string" where
  "quote_chars [] = []"
| "quote_chars (c # cs) =
     (case cs of
        c1 # c2 # r \<Rightarrow>
          if lone_surrogate c c1 c2 then surrogate_escape c1 c2 @ quote_chars r
          else json_escape c @ quote_chars cs
      | _ \<Rightarrow> json_escape c @ quote_chars cs)"

declare quote_chars.simps(2) [simp del]

definition json_quote :: "string \<Rightarrow> string" where
  "json_quote s = CHR 0x22 # quote_chars s @ [CHR 0x22]"

fun show_nat :: "nat \<Rightarrow> string" where
  "show_nat n =
     (if n < 10 then [char_of (48 + n)] else show_nat (n div 10) @ [char_of (48 + n mod 10)])"

declare show_nat.simps [simp del]

definition show_int :: "int \<Rightarrow> string" where
  "show_int i = (if i < 0 then CHR ''-'' # show_nat (nat (- i)) else show_nat (nat i))"

fun commas :: "string list \<Rightarrow> string" where
  "commas [] = []"
| "commas [x] = x"
| "commas (x # y # ys) = x @ CHR '','' # commas (y # ys)"

fun ser :: "jsvalue \<Rightarrow> string" where
  "ser JUndefined = ''null''"
| "ser JNull = ''null''"
| "ser (JBool b) = (if b then ''true'' else ''false'')"
| "ser (JNum i) = show_int i"
| "ser (JStr s) = json_quote s"
| "ser (JArr vs) = CHR ''['' # commas (map ser vs) @ '']''"
| "ser (JObj kvs) =
     CHR ''{'' # commas (map (\<lambda>kv. json_quote (fst kv) @ CHR '':'' # ser (snd kv))
                        (filter (\<lambda>kv. snd kv \<noteq> JUndefined) kvs)) @ ''}''"

definition json_stringify :: "jsvalue \<Rightarrow> string option" where
  "json_stringify v = (if v = JUndefined then None else Some (ser v))"

text \<open>
  The JSON-serializable values: those \<^verbatim>\<open>JSON.stringify\<close> writes without loss. No
  \<^verbatim>\<open>undefined\<close> occurs in them, the property names of an object are distinct, and their
  strings and property names are strings: byte lists that represent one.
\<close>

fun serializable :: "jsvalue \<Rightarrow> bool" where
  "serializable JUndefined = False"
| "serializable (JStr s) = js_string s"
| "serializable (JArr vs) = (\<forall>v \<in> set vs. serializable v)"
| "serializable (JObj kvs) =
     (distinct (map fst kvs) \<and> (\<forall>kv \<in> set kvs. js_string (fst kv) \<and> serializable (snd kv)))"
| "serializable _ = True"

text \<open>
  \<^verbatim>\<open>JSON.parse\<close>, a recursive-descent parser. The recursion on nested values is bounded
  by a counter started at the length of the text; a parse error (\<^verbatim>\<open>SyntaxError\<close>) is
  \<open>None\<close>. Whitespace is skipped between tokens, a repeated property name keeps its first
  position and its last value, and a \<^verbatim>\<open>\\uXXXX\<close> escape stands for the bytes of that
  code unit in generalized UTF-8. The two escapes of a surrogate pair are read one by one
  and not joined into the four bytes of the pair; \<^verbatim>\<open>JSON.stringify\<close> writes a pair as
  its character and never as two escapes.
\<close>

definition is_ws :: "char \<Rightarrow> bool" where
  "is_ws c = (c = CHR 0x20 \<or> c = CHR 0x09 \<or> c = CHR 0x0A \<or> c = CHR 0x0D)"

definition skip_ws :: "string \<Rightarrow> string" where
  "skip_ws s = dropWhile is_ws s"

definition hex_val :: "char \<Rightarrow> nat option" where
  "hex_val c =
     (let b = (of_char c :: nat) in
      if 48 \<le> b \<and> b \<le> 57 then Some (b - 48)
      else if 97 \<le> b \<and> b \<le> 102 then Some (b - 87)
      else if 65 \<le> b \<and> b \<le> 70 then Some (b - 55)
      else None)"

definition parse_hex4 :: "string \<Rightarrow> nat option" where
  "parse_hex4 s =
     (case map hex_val (take 4 s) of
        [Some a, Some b, Some c, Some d] \<Rightarrow> Some (((a * 16 + b) * 16 + c) * 16 + d)
      | _ \<Rightarrow> None)"

definition utf8_of :: "nat \<Rightarrow> string" where
  "utf8_of cp =
     (if cp < 128 then [char_of cp]
      else if cp < 2048 then [char_of (192 + cp div 64), char_of (128 + cp mod 64)]
      else [char_of (224 + cp div 4096), char_of (128 + cp div 64 mod 64),
            char_of (128 + cp mod 64)])"

definition unescape :: "char \<Rightarrow> char option" where
  "unescape e =
     (if e = CHR 0x22 \<or> e = CHR 0x5C \<or> e = CHR ''/'' then Some e
      else if e = CHR ''b'' then Some (CHR 0x08)
      else if e = CHR ''f'' then Some (CHR 0x0C)
      else if e = CHR ''n'' then Some (CHR 0x0A)
      else if e = CHR ''r'' then Some (CHR 0x0D)
      else if e = CHR ''t'' then Some (CHR 0x09)
      else None)"

function parse_chars :: "string \<Rightarrow> (string \<times> string) option" where
  "parse_chars [] = None"
| "parse_chars (c # cs) =
     (if c = CHR 0x22 then Some ([], cs)
      else if c = CHR 0x5C then
        (case cs of
           [] \<Rightarrow> None
         | e # es \<Rightarrow>
             if e = CHR ''u'' then
               (case parse_hex4 es of
                  None \<Rightarrow> None
                | Some cp \<Rightarrow>
                    (case parse_chars (drop 4 es) of
                       None \<Rightarrow> None
                     | Some (s, r) \<Rightarrow> Some (utf8_of cp @ s, r)))
             else
               (case unescape e of
                  None \<Rightarrow> None
                | Some d \<Rightarrow>
                    (case parse_chars es of
                       None \<Rightarrow> None
                     | Some (s, r) \<Rightarrow> Some (d # s, r))))
      else if (of_char c :: nat) < 32 then None
      else (case parse_chars cs of
              None \<Rightarrow> None
            | Some (s, r) \<Rightarrow> Some (c # s, r)))"
  by pat_completeness auto
termination
  by (relation "measure length") auto

declare parse_chars.simps [simp del]

definition is_digit :: "char \<Rightarrow> bool" where
  "is_digit c = (48 \<le> (of_char c :: nat) \<and> (of_char c :: nat) \<le> 57)"

definition digits_val :: "string \<Rightarrow> nat" where
  "digits_val ds = foldl (\<lambda>a c. a * 10 + (of_char c - 48)) 0 ds"

definition parse_number :: "string \<Rightarrow> (jsvalue \<times> string) option" where
  "parse_number s =
     (let neg = (s \<noteq> [] \<and> hd s = CHR ''-'');
          t = (if neg then tl s else s);
          ds = takeWhile is_digit t;
          r = dropWhile is_digit t
      in if ds = [] then None
         else if 1 < length ds \<and> hd ds = CHR ''0'' then None
         else if r \<noteq> [] \<and> (hd r = CHR ''.'' \<or> hd r = CHR ''e'' \<or> hd r = CHR ''E'') then None
         else Some (JNum (if neg then - int (digits_val ds) else int (digits_val ds)), r))"

definition parse_literal :: "string \<Rightarrow> jsvalue \<Rightarrow> string \<Rightarrow> (jsvalue \<times> string) option" where
  "parse_literal lit v s =
     (if take (length lit) s = lit then Some (v, drop (length lit) s) else None)"

fun parse_value :: "nat \<Rightarrow> string \<Rightarrow> (jsvalue \<times> string) option"
  and parse_elems :: "nat \<Rightarrow> string \<Rightarrow> (jsvalue list \<times> string) option"
  and parse_members :: "nat \<Rightarrow> string \<Rightarrow> ((string \<times> jsvalue) list \<times> string) option"
where
  "parse_value 0 s = None"
| "parse_value (Suc n) s =
     (case skip_ws s of
        [] \<Rightarrow> None
      | c # cs \<Rightarrow>
          if c = CHR ''n'' then parse_literal ''null'' JNull (c # cs)
          else if c = CHR ''t'' then parse_literal ''true'' (JBool True) (c # cs)
          else if c = CHR ''f'' then parse_literal ''false'' (JBool False) (c # cs)
          else if c = CHR 0x22 then
            (case parse_chars cs of None \<Rightarrow> None | Some (str, r) \<Rightarrow> Some (JStr str, r))
          else if c = CHR ''['' then
            (case skip_ws cs of
               [] \<Rightarrow> None
             | d # ds \<Rightarrow>
                 if d = CHR '']'' then Some (JArr [], ds)
                 else (case parse_elems n cs of
                         None \<Rightarrow> None
                       | Some (vs, r) \<Rightarrow> Some (JArr vs, r)))
          else if c = CHR ''{'' then
            (case skip_ws cs of
               [] \<Rightarrow> None
             | d # ds \<Rightarrow>
                 if d = CHR ''}'' then Some (JObj [], ds)
                 else (case parse_members n cs of
                         None \<Rightarrow> None
                       | Some (kvs, r) \<Rightarrow>
                           Some (JObj (foldl (\<lambda>al kv. AList.update (fst kv) (snd kv) al) [] kvs), r)))
          else parse_number (c # cs))"
| "parse_elems 0 s = None"
| "parse_elems (Suc n) s =
     (case parse_value n s of
        None \<Rightarrow> None
      | Some (v, r) \<Rightarrow>
          (case skip_ws r of
             [] \<Rightarrow> None
           | d # ds \<Rightarrow>
               if d = CHR '','' then
                 (case parse_elems n ds of
                    None \<Rightarrow> None
                  | Some (vs, r') \<Rightarrow> Some (v # vs, r'))
               else if d = CHR '']'' then Some ([v], ds)
               else None))"
| "parse_members 0 s = None"
| "parse_members (Suc n) s =
     (case skip_ws s of
        [] \<Rightarrow> None
      | q # qs \<Rightarrow>
          if q \<noteq> CHR 0x22 then None
          else
            (case parse_chars qs of
               None \<Rightarrow> None
             | Some (k, r) \<Rightarrow>
                 (case skip_ws r of
                    [] \<Rightarrow> None
                  | c # cs \<Rightarrow>
                      if c \<noteq> CHR '':'' then None
                      else
                        (case parse_value n cs of
                           None \<Rightarrow> None
                         | Some (v, r') \<Rightarrow>
                             (case skip_ws r' of
                                [] \<Rightarrow> None
                              | d # ds \<Rightarrow>
                                  if d = CHR '','' then
                                    (case parse_members n ds of
                                       None \<Rightarrow> None
                                     | Some (kvs, r'') \<Rightarrow> Some ((k, v) # kvs, r''))
                                  else if d = CHR ''}'' then Some ([(k, v)], ds)
                                  else None)))))"

definition json_parse :: "string \<Rightarrow> jsvalue option" where
  "json_parse s =
     (case parse_value (length s) s of
        None \<Rightarrow> None
      | Some (v, r) \<Rightarrow> if skip_ws r = [] then Some v else None)"

section \<open>The store: Redis as the service uses it\<close>

text \<open>
  One keyspace of string values and set values, each with an optional expiry time (in
  seconds on the store's clock). A key whose expiry time has come is absent for every
  command. The keyspace is an association list with distinct keys; its order is the order
  in which SCAN visits the keys. \<open>online\<close> is the state of the connection: while it is
  down every command is rejected.

  ioredis sends a string to the store in UTF-8 and reads a reply as UTF-8. The keys, set
  members, patterns and values of the model are these bytes; for a string without
  unpaired surrogates they are the string itself, and only such strings are meant as
  namespaces, keys, tags and patterns. The payload that \<^verbatim>\<open>set\<close> sends is a text of
  \<^verbatim>\<open>JSON.stringify\<close>, plain or in base64, and has no unpaired surrogate.
\<close>

datatype error = ConnectionError | WrongType | SyntaxError | TypeError | Thrown string

datatype rvalue = RString string | RSet "string list"

type_synonym rentry = "rvalue \<times> nat option"

record redis =
  db :: "(string \<times> rentry) list"
  clock :: nat
  online :: bool

definition expired :: "nat \<Rightarrow> nat option \<Rightarrow> bool" where
  "expired now e = (case e of None \<Rightarrow> False | Some t \<Rightarrow> t \<le> now)"

definition db_lookup :: "redis \<Rightarrow> string \<Rightarrow> rentry option" where
  "db_lookup s k =
     (case map_of (db s) k of
        None \<Rightarrow> None
      | Some ent \<Rightarrow> if expired (clock s) (snd ent) then None else Some ent)"

definition db_store :: "redis \<Rightarrow> string \<Rightarrow> rentry \<Rightarrow> redis" where
  "db_store s k ent = s\<lparr>db := AList.update k ent (db s)\<rparr>"

definition db_remove :: "redis \<Rightarrow> string \<Rightarrow> redis" where
  "db_remove s k = s\<lparr>db := AList.delete k (db s)\<rparr>"

definition live_keys :: "redis \<Rightarrow> string list" where
  "live_keys s = filter (\<lambda>k. db_lookup s k \<noteq> None) (map fst (db s))"


text \<open>Time passing between two calls.\<close>

definition advance :: "nat \<Rightarrow> redis \<Rightarrow> redis" where
  "advance d s = s\<lparr>clock := clock s + d\<rparr>"




text \<open>
  The commands of a pipeline, by their effect on the store. Inside a pipeline a command
  that fails (SETEX with a non-positive time, SADD on a string value) leaves the store as
  it is and the pipeline goes on: ioredis reports the failure in the result list, which
  the service does not read. EXPIRE with a non-positive time deletes the key.
\<close>

datatype command =
    SETEX string int string
  | SADD string string
  | EXPIRE string int
  | DEL "string list"

fun apply_command :: "redis \<Rightarrow> command \<Rightarrow> redis" where
  "apply_command s (SETEX k ttl v) =
     (if ttl \<le> 0 then s else db_store s k (RString v, Some (clock s + nat ttl)))"
| "apply_command s (SADD k m) =
     (case db_lookup s k of
        None \<Rightarrow> db_store s k (RSet [m], None)
      | Some (RSet ms, e) \<Rightarrow> db_store s k (RSet (if m \<in> set ms then ms else ms @ [m]), e)
      | Some (RString v, e) \<Rightarrow> s)"
| "apply_command s (EXPIRE k ttl) =
     (case db_lookup s k of
        None \<Rightarrow> s
      | Some (v, e) \<Rightarrow>
          if ttl \<le> 0 then db_remove s k else db_store s k (v, Some (clock s + nat ttl)))"
| "apply_command s (DEL ks) = foldl db_remove s ks"

definition pipeline_exec :: "redis \<Rightarrow> command list \<Rightarrow> redis" where
  "pipeline_exec s cmds = (if online s then foldl apply_command s cmds else s)"

text \<open>The commands the service awaits one by one; a rejected promise is \<open>Inl\<close>.\<close>

definition redis_get :: "redis \<Rightarrow> string \<Rightarrow> error + string option" where
  "redis_get s k =
     (if \<not> online s then Inl ConnectionError
      else case db_lookup s k of
             None \<Rightarrow> Inr None
           | Some (RString v, e) \<Rightarrow> Inr (Some v)
           | Some (RSet ms, e) \<Rightarrow> Inl WrongType)"

definition redis_smembers :: "redis \<Rightarrow> string \<Rightarrow> error + string list" where
  "redis_smembers s k =
     (if \<not> online s then Inl ConnectionError
      else case db_lookup s k of
             None \<Rightarrow> Inr []
           | Some (RSet ms, e) \<Rightarrow> Inr ms
           | Some (RString v, e) \<Rightarrow> Inl WrongType)"



section \<open>CacheService\<close>

text \<open>
  The service holds its configuration only: the namespace and the default time to live.
  \<^verbatim>\<open>compressionThreshold\<close> is the constant the constructor assigns.
\<close>

record cache_service =
  namespace :: string
  defaultTTL :: int

definition compressionThreshold :: nat where
  "compressionThreshold = 1024"

text \<open>\<^verbatim>\<open>generateKey(key, namespace?)\<close>: \<^verbatim>\<open>namespace || this.namespace\<close>, then the key.\<close>

definition generateKey :: "cache_service \<Rightarrow> string \<Rightarrow> string option \<Rightarrow> string" where
  "generateKey svc key nsopt =
     (let ns = (case nsopt of None \<Rightarrow> namespace svc
                | Some n \<Rightarrow> if n = [] then namespace svc else n)
      in ns @ '':'' @ key)"

text \<open>
  \<^verbatim>\<open>compress\<close> compares \<^verbatim>\<open>data.length\<close> with the threshold and writes
  \<^verbatim>\<open>Buffer.from(data).toString('base64')\<close> after the marker; \<^verbatim>\<open>decompress\<close> reads
  \<^verbatim>\<open>Buffer.from(data.slice(11), 'base64').toString('utf-8')\<close>.
\<close>

definition compress :: "string \<Rightarrow> string" where
  "compress data =
     (if compressionThreshold < js_length data
      then ''compressed:'' @ b64_encode (utf8_encode data) else data)"

definition decompress :: "string \<Rightarrow> string" where
  "decompress data =
     (if prefix ''compressed:'' data then utf8_decode (b64_decode (drop 11 data)) else data)"

text \<open>
  \<^verbatim>\<open>get\<close>: \<open>cache_get_try\<close> is the body of its \<^verbatim>\<open>try\<close> block (a rejected GET and a
  \<^verbatim>\<open>SyntaxError\<close> of \<^verbatim>\<open>JSON.parse\<close> are its exceptions), \<open>cache_get\<close> adds the
  \<^verbatim>\<open>catch\<close>, which returns \<^verbatim>\<open>null\<close>.
\<close>

definition cache_get_try :: "cache_service \<Rightarrow> redis \<Rightarrow> string \<Rightarrow> string option \<Rightarrow> error + jsvalue" where
  "cache_get_try svc s key nsopt =
     (let fullKey = generateKey svc key nsopt in
      case redis_get s fullKey of
        Inl e \<Rightarrow> Inl e
      | Inr None \<Rightarrow> Inr JNull
      | Inr (Some data) \<Rightarrow>
          if data = [] then Inr JNull
          else (case json_parse (decompress data) of
                  None \<Rightarrow> Inl SyntaxError
                | Some v \<Rightarrow> Inr v))"

definition cache_get :: "cache_service \<Rightarrow> redis \<Rightarrow> string \<Rightarrow> string option \<Rightarrow> jsvalue" where
  "cache_get svc s key nsopt =
     (case cache_get_try svc s key nsopt of Inl e \<Rightarrow> JNull | Inr v \<Rightarrow> v)"

text \<open>
  \<^verbatim>\<open>set\<close>: \<^verbatim>\<open>ttl || this.defaultTTL\<close>, then one pipeline: SETEX of the entry and, for
  every tag, SADD of the full key to the tag's set and EXPIRE of that set. The only
  exception of its \<^verbatim>\<open>try\<close> block is the \<^verbatim>\<open>TypeError\<close> of reading \<^verbatim>\<open>.length\<close> of
  \<^verbatim>\<open>JSON.stringify(undefined)\<close>; \<^verbatim>\<open>pipeline.exec()\<close> resolves whatever its commands
  did.
\<close>

definition tag_key :: "cache_service \<Rightarrow> string \<Rightarrow> string" where
  "tag_key svc tag = generateKey svc (''tag:'' @ tag) None"

definition effective_ttl :: "cache_service \<Rightarrow> int option \<Rightarrow> int" where
  "effective_ttl svc ttl =
     (case ttl of None \<Rightarrow> defaultTTL svc | Some t \<Rightarrow> if t = 0 then defaultTTL svc else t)"

definition set_commands ::
  "cache_service \<Rightarrow> string \<Rightarrow> string \<Rightarrow> int option \<Rightarrow> string list option \<Rightarrow> command list" where
  "set_commands svc key data ttl tags =
     (let fullKey = generateKey svc key None;
          expiry = effective_ttl svc ttl
      in SETEX fullKey expiry data #
         (case tags of
            None \<Rightarrow> []
          | Some ts \<Rightarrow>
              if 0 < length ts
              then concat (map (\<lambda>tag. [SADD (tag_key svc tag) fullKey,
                                       EXPIRE (tag_key svc tag) expiry]) ts)
              else []))"

definition cache_set ::
  "cache_service \<Rightarrow> redis \<Rightarrow> string \<Rightarrow> jsvalue \<Rightarrow> int option \<Rightarrow> string list option
     \<Rightarrow> bool \<times> redis" where
  "cache_set svc s key v ttl tags =
     (case json_stringify v of
        None \<Rightarrow> (False, s)
      | Some serialized \<Rightarrow>
          (True, pipeline_exec s (set_commands svc key (compress serialized) ttl tags)))"


text \<open>
  \<^verbatim>\<open>invalidateByTags\<close>: the loop over the tags, with the running total; a rejected
  SMEMBERS leaves the loop through the \<^verbatim>\<open>catch\<close>, which returns 0.
\<close>

fun invalidate_loop ::
  "cache_service \<Rightarrow> redis \<Rightarrow> string list \<Rightarrow> nat \<Rightarrow> (error + nat) \<times> redis" where
  "invalidate_loop svc s [] totalDeleted = (Inr totalDeleted, s)"
| "invalidate_loop svc s (tag # tags) totalDeleted =
     (let tagKey = tag_key svc tag in
      case redis_smembers s tagKey of
        Inl e \<Rightarrow> (Inl e, s)
      | Inr keys \<Rightarrow>
          if 0 < length keys
          then invalidate_loop svc
                 (pipeline_exec s (map (\<lambda>k. DEL [k]) keys @ [DEL [tagKey]])) tags
                 (totalDeleted + length keys)
          else invalidate_loop svc s tags totalDeleted)"

definition invalidateByTags :: "cache_service \<Rightarrow> redis \<Rightarrow> string list \<Rightarrow> nat \<times> redis" where
  "invalidateByTags svc s tags =
     (case invalidate_loop svc s tags 0 of
        (Inl e, s') \<Rightarrow> (0, s')
      | (Inr n, s') \<Rightarrow> (n, s'))"







text \<open>
  \<^verbatim>\<open>getOrSet\<close>. The fetcher is a producer outside the cache: its \<open>n\<close>-th invocation
  (counted from 0) resolves with \<open>Inr\<close> a value or rejects with \<open>Inl\<close> an error, and the
  number of invocations made so far is threaded through. \<^verbatim>\<open>get\<close> and \<^verbatim>\<open>set\<close> return
  on every path, so the only exception the \<^verbatim>\<open>try\<close> block can see is the fetcher's, and
  the \<^verbatim>\<open>catch\<close> invokes the fetcher again.
\<close>

type_synonym fetcher = "nat \<Rightarrow> error + jsvalue"

definition getOrSet ::
  "cache_service \<Rightarrow> redis \<Rightarrow> string \<Rightarrow> fetcher \<Rightarrow> nat \<Rightarrow> int option \<Rightarrow> string list option
     \<Rightarrow> (error + jsvalue) \<times> redis \<times> nat" where
  "getOrSet svc s key fetcher calls ttl tags =
     (let cached = cache_get svc s key None in
      if cached \<noteq> JNull then (Inr cached, s, calls)
      else case fetcher calls of
             Inr data \<Rightarrow> (Inr data, snd (cache_set svc s key data ttl tags), Suc calls)
           | Inl e \<Rightarrow> (fetcher (Suc calls), s, Suc (Suc calls)))"

text \<open>
  Sequential calls of \<^verbatim>\<open>getOrSet\<close> with the same arguments; the list gives the time
  that passes before each call.
\<close>

fun getOrSet_seq ::
  "cache_service \<Rightarrow> redis \<Rightarrow> string \<Rightarrow> fetcher \<Rightarrow> nat \<Rightarrow> int option \<Rightarrow> string list option
     \<Rightarrow> nat list \<Rightarrow> (error + jsvalue) list \<times> redis \<times> nat" where
  "getOrSet_seq svc s key fetcher calls ttl tags [] = ([], s, calls)"
| "getOrSet_seq svc s key fetcher calls ttl tags (d # ds) =
     (let r = getOrSet svc (advance d s) key fetcher calls ttl tags;
          rs = getOrSet_seq svc (fst (snd r)) key fetcher (snd (snd r)) ttl tags ds
      in (fst r # fst rs, snd rs))"

section \<open>The middleware: auto-cache of GET requests\<close>

text \<open>
  What the middleware reads of a request: the method, the path, the parsed query (distinct
  parameter names, each value as the template literal prints it) and \<^verbatim>\<open>req.user?.id\<close>,
  a number or a string when present. The digest \<^verbatim>\<open>md5\<close> of Node's \<^verbatim>\<open>crypto\<close> is a
  parameter.
\<close>

datatype user_id = UserNum int | UserStr string

definition truthy_id :: "user_id option \<Rightarrow> bool" where
  "truthy_id u =
     (case u of None \<Rightarrow> False | Some (UserNum n) \<Rightarrow> n \<noteq> 0 | Some (UserStr x) \<Rightarrow> x \<noteq> [])"

definition id_string :: "user_id option \<Rightarrow> string" where
  "id_string u =
     (case u of None \<Rightarrow> ''undefined'' | Some (UserNum n) \<Rightarrow> show_int n | Some (UserStr x) \<Rightarrow> x)"

record request =
  req_method :: string
  req_path :: string
  req_query :: "(string \<times> string) list"
  req_user_id :: "user_id option"

definition query_string :: "request \<Rightarrow> string" where
  "query_string req =
     join ''&'' (map (\<lambda>kv. fst kv @ ''='' @ snd kv) (sort_key fst (req_query req)))"

text \<open>The default key generator of the middleware.\<close>

definition default_key :: "(string \<Rightarrow> string) \<Rightarrow> bool \<Rightarrow> request \<Rightarrow> string" where
  "default_key md5hex includeAuth req =
     (let parts = [req_method req, req_path req];
          queryString = query_string req;
          parts = (if queryString \<noteq> [] then parts @ [md5hex queryString] else parts);
          parts = (if includeAuth \<and> truthy_id (req_user_id req)
                   then parts @ [''user:'' @ id_string (req_user_id req)] else parts)
      in join '':'' parts)"

datatype strategy = Auto | Manual | NoCache

record auto_cache_config =
  ac_enabled :: "bool option"
  ac_keyGenerator :: "(request \<Rightarrow> string) option"
  ac_tags :: "(request \<Rightarrow> string list) option"
  ac_includeAuth :: bool
  ac_condition :: "(request \<Rightarrow> bool) option"

record cache_config =
  cfg_strategy :: strategy
  cfg_ttl :: int
  cfg_namespace :: string
  cfg_autoCache :: auto_cache_config

definition request_cache :: "cache_config \<Rightarrow> cache_service" where
  "request_cache cfg = \<lparr>namespace = cfg_namespace cfg, defaultTTL = cfg_ttl cfg\<rparr>"

definition generate_key :: "(string \<Rightarrow> string) \<Rightarrow> cache_config \<Rightarrow> request \<Rightarrow> string" where
  "generate_key md5hex cfg req =
     (case ac_keyGenerator (cfg_autoCache cfg) of
        Some g \<Rightarrow> g req
      | None \<Rightarrow> default_key md5hex (ac_includeAuth (cfg_autoCache cfg)) req)"

text \<open>
  What the middleware has done when it returns: the headers it set (in order), the key it
  put on the request, whether it answered with \<^verbatim>\<open>res.json(cachedData)\<close> or called
  \<^verbatim>\<open>next()\<close>, and whether it replaced \<^verbatim>\<open>res.json\<close> by the wrapper that stores the
  payload.
\<close>

datatype outcome = SendJson jsvalue | CallNext

record mw_result =
  headers :: "(string \<times> string) list"
  cacheKey :: "string option"
  outcome :: outcome
  json_wrapped :: bool

text \<open>
  \<open>auto_get_try\<close> is the \<^verbatim>\<open>try\<close> block around the lookup, \<open>auto_get\<close> adds its
  \<^verbatim>\<open>catch\<close>. The lookup is \<^verbatim>\<open>req.cache.get\<close>, which returns on every path.
\<close>

definition auto_get_try :: "cache_config \<Rightarrow> string \<Rightarrow> redis \<Rightarrow> error + mw_result" where
  "auto_get_try cfg key s =
     (let cachedData = cache_get (request_cache cfg) s key None in
      if cachedData \<noteq> JNull then
        Inr \<lparr>headers = [(''X-Cache'', ''HIT''), (''X-Cache-Key'', key)], cacheKey = Some key,
             outcome = SendJson cachedData, json_wrapped = False\<rparr>
      else
        Inr \<lparr>headers = [(''X-Cache'', ''MISS''), (''X-Cache-Key'', key)], cacheKey = Some key,
             outcome = CallNext, json_wrapped = True\<rparr>)"

definition auto_get :: "cache_config \<Rightarrow> string \<Rightarrow> redis \<Rightarrow> mw_result" where
  "auto_get cfg key s =
     (case auto_get_try cfg key s of
        Inr r \<Rightarrow> r
      | Inl e \<Rightarrow> \<lparr>headers = [(''X-Cache'', ''ERROR'')], cacheKey = Some key,
                   outcome = CallNext, json_wrapped = False\<rparr>)"

definition pass_through :: mw_result where
  "pass_through = \<lparr>headers = [], cacheKey = None, outcome = CallNext, json_wrapped = False\<rparr>"

text \<open>
  \<^verbatim>\<open>cacheMiddleware\<close> on one request. The branch that arms the invalidation of a
  mutating request sets no header and calls \<^verbatim>\<open>next()\<close>; its hooks are not modelled.
\<close>

definition cacheMiddleware ::
  "(string \<Rightarrow> string) \<Rightarrow> cache_config \<Rightarrow> request \<Rightarrow> redis \<Rightarrow> mw_result" where
  "cacheMiddleware md5hex cfg req s =
     (if cfg_strategy cfg = NoCache \<or> cfg_strategy cfg = Manual then pass_through
      else if req_method req = ''GET'' \<and> ac_enabled (cfg_autoCache cfg) \<noteq> Some False then
        (let shouldCache = (case ac_condition (cfg_autoCache cfg) of
                              Some c \<Rightarrow> c req | None \<Rightarrow> True)
         in if shouldCache then auto_get cfg (generate_key md5hex cfg req) s
            else pass_through)
      else pass_through)"

text \<open>
  The wrapper around \<^verbatim>\<open>res.json\<close>: a 2xx payload is stored under the request's key
  with the configured time to live and the resolved tags.
\<close>

definition wrapped_json ::
  "cache_config \<Rightarrow> request \<Rightarrow> string \<Rightarrow> redis \<Rightarrow> nat \<Rightarrow> jsvalue \<Rightarrow> redis" where
  "wrapped_json cfg req key s statusCode data =
     (if 200 \<le> statusCode \<and> statusCode < 300 then
        (let tags = (case ac_tags (cfg_autoCache cfg) of Some f \<Rightarrow> f req | None \<Rightarrow> [])
         in snd (cache_set (request_cache cfg) s key data (Some (cfg_ttl cfg)) (Some tags)))
      else s)"

text \<open>
  A request served by the middleware and then, unless the middleware answered, by a
  handler that calls \<^verbatim>\<open>res.json\<close> once with a status code and a payload.
\<close>

definition serve ::
  "(string \<Rightarrow> string) \<Rightarrow> cache_config \<Rightarrow> (request \<Rightarrow> nat \<times> jsvalue) \<Rightarrow> request \<Rightarrow> redis
     \<Rightarrow> (string \<times> string) list \<times> jsvalue \<times> redis" where
  "serve md5hex cfg handler req s =
     (let r = cacheMiddleware md5hex cfg req s in
      case outcome r of
        SendJson v \<Rightarrow> (headers r, v, s)
      | CallNext \<Rightarrow>
          (let res = handler req;
               s' = (if json_wrapped r
                     then wrapped_json cfg req (case cacheKey r of Some k \<Rightarrow> k | None \<Rightarrow> []) s (fst res) (snd res)
                     else s)
           in (headers r, snd res, s')))"

section \<open>Auxiliary notions and example objects\<close>

subsection \<open>For the codecs\<close>

text \<open>
  Texts of ASCII characters only. What may follow a value in a JSON text, the first character of a number and of a value,
  a bound on the recursion depth the parser needs for a value, and one member of an
  object as \<^verbatim>\<open>JSON.stringify\<close> writes it.
\<close>

definition ascii :: "string \<Rightarrow> bool" where
  "ascii s = list_all (\<lambda>c. (of_char c :: nat) < 128) s"

definition delim :: "string \<Rightarrow> bool" where
  "delim r = (r = [] \<or> hd r = CHR '','' \<or> hd r = CHR '']'' \<or> hd r = CHR ''}'')"

fun cost :: "jsvalue \<Rightarrow> nat" where
  "cost (JArr vs) = Suc (sum_list (map (\<lambda>v. Suc (cost v)) vs))"
| "cost (JObj kvs) = Suc (sum_list (map (\<lambda>kv. Suc (cost (snd kv))) kvs))"
| "cost _ = Suc 0"

definition number_start :: "char \<Rightarrow> bool" where
  "number_start c = (c = CHR ''-'' \<or> is_digit c)"

definition value_start :: "char \<Rightarrow> bool" where
  "value_start c = (\<not> is_ws c \<and> c \<noteq> CHR '']'' \<and> c \<noteq> CHR ''}'')"

definition ser_member :: "string \<times> jsvalue \<Rightarrow> string" where
  "ser_member kv = json_quote (fst kv) @ CHR '':'' # ser (snd kv)"

subsection \<open>For the store\<close>

text \<open>
  The keys a pipeline command can touch; patterns without a glob metacharacter.
\<close>

fun command_keys :: "command \<Rightarrow> string set" where
  "command_keys (SETEX k ttl v) = {k}"
| "command_keys (SADD k m) = {k}"
| "command_keys (EXPIRE k ttl) = {k}"
| "command_keys (DEL ks) = set ks"





subsection \<open>For namespaces\<close>







subsection \<open>Example objects\<close>

text \<open>
  The service of the repository's tests and three more namespaces; an empty connected
  store and a disconnected one; a string of \<open>n\<close> two-byte characters (the letter e with
  an acute accent) and the string of the unpaired surrogate \<^verbatim>\<open>D800\<close> and \<open>n\<close> letters
  x; a service whose namespace is a pattern; the store of the pattern deletion test, alone and with an entry of
  another namespace; a store whose entry is not JSON; stores written under tags.
\<close>

definition demo_service :: cache_service where
  "demo_service = \<lparr>namespace = ''app'', defaultTTL = 3600\<rparr>"





definition empty_store :: redis where
  "empty_store = \<lparr>db = [], clock = 0, online = True\<rparr>"

definition offline_store :: redis where
  "offline_store = \<lparr>db = [], clock = 0, online = False\<rparr>"

definition accented :: "nat \<Rightarrow> string" where
  "accented n = concat (replicate n [CHR 0xC3, CHR 0xA9])"

definition unpaired :: "nat \<Rightarrow> string" where
  "unpaired n = [CHR 0xED, CHR 0xA0, CHR 0x80] @ replicate n CHR ''x''"



definition corrupt_store :: redis where
  "corrupt_store = \<lparr>db = [(''app:k'', (RString ''<html>'', None))], clock = 0, online = True\<rparr>"

definition shared_tag_store :: redis where
  "shared_tag_store =
     snd (cache_set demo_service empty_store ''key3'' (JStr ''value3'') (Some 60)
            (Some [''tag1'', ''tag2'']))"

definition first_write_store :: redis where
  "first_write_store =
     snd (cache_set demo_service empty_store ''k1'' (JNum 1) (Some 1000) (Some [''t'']))"

definition mixed_ttl_store :: redis where
  "mixed_ttl_store =
     snd (cache_set demo_service first_write_store ''k2'' (JNum 2) (Some 10) (Some [''t'']))"

text \<open>
  Fetchers: one that returns 7, one that returns \<^verbatim>\<open>null\<close>, one that returns
  \<^verbatim>\<open>undefined\<close>, one that always fails.
\<close>

definition seven :: fetcher where
  "seven n = Inr (JNum 7)"

definition null_fetcher :: fetcher where
  "null_fetcher n = Inr JNull"

definition undefined_fetcher :: fetcher where
  "undefined_fetcher n = Inr JUndefined"

definition failing_fetcher :: fetcher where
  "failing_fetcher n = Inl (Thrown ''down'')"

text \<open>
  The middleware's default configuration, an unauthenticated request with a query, the
  request \<^verbatim>\<open>GET /users\<close>, a store whose entry for that request is not JSON, a handler
  that answers 200, and a digest that returns its argument.
\<close>

definition default_config :: cache_config where
  "default_config =
     \<lparr>cfg_strategy = Auto, cfg_ttl = 3600, cfg_namespace = ''app'',
      cfg_autoCache = \<lparr>ac_enabled = None, ac_keyGenerator = None, ac_tags = None,
                        ac_includeAuth = False, ac_condition = None\<rparr>\<rparr>"

definition anonymous_request :: request where
  "anonymous_request =
     \<lparr>req_method = ''GET'', req_path = ''/api/dashboard'', req_query = [(''page'', ''2'')],
      req_user_id = None\<rparr>"

definition users_request :: request where
  "users_request =
     \<lparr>req_method = ''GET'', req_path = ''/users'', req_query = [], req_user_id = None\<rparr>"

definition corrupt_users_store :: redis where
  "corrupt_users_store =
     \<lparr>db = [(''app:GET:/users'', (RString ''<html>'', None))], clock = 0, online = True\<rparr>"

definition fresh_handler :: "request \<Rightarrow> nat \<times> jsvalue" where
  "fresh_handler req = (200, JStr ''fresh'')"

definition identity_digest :: "string \<Rightarrow> string" where
  "identity_digest q = q"

section \<open>Properties of the codecs\<close>

subsection \<open>Base64 decodes what it encoded\<close>

lemma b64_val_char: "n < 64 \<Longrightarrow> b64_val (b64_char n) = Some n"
  unfolding b64_val_def b64_char_def Let_def
  by (auto simp: of_char_of [where ?'a = nat])

lemma b64_char_not_pad: "n < 64 \<Longrightarrow> b64_char n \<noteq> CHR ''=''"
  using b64_val_char[of n] by (auto simp: b64_val_def)

lemma of_char_lt: "(of_char (c::char) :: nat) < 256"
  by (metis of_char_mod_256 mod_less_divisor zero_less_numeral)

lemma pad_sextets: "b64_sextets (CHR ''='' # r) = []"
  by simp

lemma b64_step: "n < 64 \<Longrightarrow> b64_sextets (b64_char n # r) = n # b64_sextets r"
  by (simp add: b64_char_not_pad b64_val_char)

lemma pack3: "(a::nat) < 256 \<Longrightarrow> b < 256 \<Longrightarrow> c < 256 \<Longrightarrow> (a * 256 + b) * 256 + c < 16777216"
  by (simp add: distrib_right)

lemma pack_div: "b < m \<Longrightarrow> (a * m + b) div m = (a::nat)"
  by simp

lemma pack_mod: "b < m \<Longrightarrow> (a * m + b) mod m = (b::nat)"
  by simp

lemma dec2: "b64_decode_vals [v1, v2] = [char_of ((v1 * 64 + v2) div 16)]"
  by simp

lemma dec3: "b64_decode_vals [v1, v2, v3] =
   [char_of (((v1 * 64 + v2) * 64 + v3) div 1024), char_of (((v1 * 64 + v2) * 64 + v3) div 4 mod 256)]"
  by (simp only: b64_decode_vals.simps Let_def)

lemma dec4: "b64_decode_vals (v1 # v2 # v3 # v4 # r) =
   [char_of ((((v1 * 64 + v2) * 64 + v3) * 64 + v4) div 65536),
    char_of ((((v1 * 64 + v2) * 64 + v3) * 64 + v4) div 256 mod 256),
    char_of ((((v1 * 64 + v2) * 64 + v3) * 64 + v4) mod 256)] @ b64_decode_vals r"
  by (simp only: b64_decode_vals.simps Let_def)

lemma b64_roundtrip: "b64_decode (b64_encode bs) = bs"
proof (induction bs rule: b64_encode.induct)
  case 1
  show ?case by (simp add: b64_decode_def)
next
  case (2 a)
  define x where "x = (of_char a :: nat)"
  have a: "x < 256" unfolding x_def by (rule of_char_lt)
  have ca: "char_of x = a" by (simp add: x_def)
  have 1: "x div 4 < 64" using a by simp
  have 2: "x mod 4 * 16 < 64" using mod_less_divisor[of 4 x] by linarith
  have "x div 4 * 64 + x mod 4 * 16 = x * 16"
    using div_mult_mod_eq[of x 4] by linarith
  then have e: "(x div 4 * 64 + x mod 4 * 16) div 16 = x" by simp
  have enc: "b64_encode [a] = [b64_char (x div 4), b64_char (x mod 4 * 16), CHR ''='', CHR ''='']"
    by (simp add: x_def Let_def)
  have "b64_sextets (b64_encode [a]) = [x div 4, x mod 4 * 16]"
    unfolding enc by (simp only: b64_step[OF 1] b64_step[OF 2] pad_sextets)
  then show ?case by (simp only: b64_decode_def dec2 e ca)
next
  case (3 a b)
  define n where "n = (of_char a :: nat) * 256 + of_char b"
  have n: "n < 65536" using of_char_lt[of a] of_char_lt[of b] unfolding n_def by linarith
  have 1: "n div 1024 < 64" using n by simp
  have 2: "n div 16 mod 64 < 64" by simp
  have 3: "n mod 16 * 4 < 64" using mod_less_divisor[of 16 n] by linarith
  have "n div 1024 = n div 16 div 64" by (simp add: div_mult2_eq[symmetric])
  then have "n div 1024 * 64 + n div 16 mod 64 = n div 16" by simp
  moreover have "n div 16 * 64 + n mod 16 * 4 = n * 4"
    using div_mult_mod_eq[of n 16] by linarith
  ultimately have e: "((n div 1024 * 64 + n div 16 mod 64) * 64 + n mod 16 * 4) = n * 4"
    by simp
  have "(n * 4) div 1024 = n div 256" by simp
  also have "\<dots> = of_char a" unfolding n_def by (rule pack_div[OF of_char_lt])
  finally have da: "char_of ((n * 4) div 1024) = a" by (simp only: char_of_char)
  have "(n * 4) div 4 mod 256 = n mod 256" by simp
  also have "\<dots> = of_char b" unfolding n_def by (rule pack_mod[OF of_char_lt])
  finally have db: "char_of ((n * 4) div 4 mod 256) = b" by (simp only: char_of_char)
  have enc: "b64_encode [a, b] =
      [b64_char (n div 1024), b64_char (n div 16 mod 64), b64_char (n mod 16 * 4), CHR ''='']"
    by (simp add: n_def Let_def)
  have "b64_sextets (b64_encode [a, b]) = [n div 1024, n div 16 mod 64, n mod 16 * 4]"
    unfolding enc by (simp only: b64_step[OF 1] b64_step[OF 2] b64_step[OF 3] pad_sextets)
  then show ?case by (simp only: b64_decode_def dec3 e da db)
next
  case (4 a b c rest)
  define n where "n = ((of_char a :: nat) * 256 + of_char b) * 256 + of_char c"
  have n: "n < 16777216" unfolding n_def by (rule pack3[OF of_char_lt of_char_lt of_char_lt])
  have 1: "n div 262144 < 64" using n by simp
  have 2: "n div 4096 mod 64 < 64" "n div 64 mod 64 < 64" "n mod 64 < 64" by simp_all
  have q: "n div 4096 = n div 64 div 64" "n div 262144 = n div 64 div 64 div 64"
    by (simp_all add: div_mult2_eq[symmetric])
  have "n div 262144 * 64 + n div 4096 mod 64 = n div 4096" unfolding q by simp
  moreover have "n div 4096 * 64 + n div 64 mod 64 = n div 64" unfolding q by simp
  ultimately have e: "((n div 262144 * 64 + n div 4096 mod 64) * 64 + n div 64 mod 64) * 64 + n mod 64 = n"
    by simp
  have "n mod 256 = of_char c" unfolding n_def by (rule pack_mod[OF of_char_lt])
  then have dc: "char_of (n mod 256) = c" by (simp only: char_of_char)
  have d1: "n div 256 = of_char a * 256 + of_char b"
    unfolding n_def by (rule pack_div[OF of_char_lt])
  have "n div 256 mod 256 = of_char b" unfolding d1 by (rule pack_mod[OF of_char_lt])
  then have db: "char_of (n div 256 mod 256) = b" by (simp only: char_of_char)
  have "n div 65536 = n div 256 div 256" by (simp add: div_mult2_eq[symmetric])
  also have "\<dots> = of_char a" unfolding d1 by (rule pack_div[OF of_char_lt])
  finally have da: "char_of (n div 65536) = a" by (simp only: char_of_char)
  have enc: "b64_encode (a # b # c # rest) =
      b64_char (n div 262144) # b64_char (n div 4096 mod 64) # b64_char (n div 64 mod 64)
        # b64_char (n mod 64) # b64_encode rest"
    by (simp add: n_def Let_def)
  have "b64_sextets (b64_encode (a # b # c # rest)) =
      n div 262144 # n div 4096 mod 64 # n div 64 mod 64 # n mod 64 # b64_sextets (b64_encode rest)"
    unfolding enc by (simp only: b64_step[OF 1] b64_step[OF 2(1)] b64_step[OF 2(2)] b64_step[OF 2(3)])
  then show ?case using 4 by (simp only: b64_decode_def dec4 e da db dc append.simps)
qed

subsection \<open>Strings and their bytes\<close>

lemma utf8_valid_1:
  "(of_char c :: nat) < 128 \<Longrightarrow> utf8_valid g (c # cs) = utf8_valid g cs"
  by (simp add: utf8_valid.simps Let_def)

lemma utf8_valid_2:
  "194 \<le> (of_char c :: nat) \<Longrightarrow> (of_char c :: nat) < 224 \<Longrightarrow>
   utf8_valid g (c # cs) = (\<exists>c1 r. cs = c1 # r \<and> cont c1 \<and> utf8_valid g r)"
  by (cases cs) (simp_all add: utf8_valid.simps Let_def)

lemma utf8_valid_3:
  assumes "224 \<le> (of_char c :: nat)" and "(of_char c :: nat) < 240"
  shows "utf8_valid g (c # cs) =
     (\<exists>c1 c2 r. cs = c1 # c2 # r \<and> second3 g c c1 \<and> cont c2
        \<and> \<not> (lead_surrogate c c1 \<and> trail_first r) \<and> utf8_valid g r)"
proof (cases cs)
  case Nil
  then show ?thesis using assms by (simp add: utf8_valid.simps Let_def)
next
  case (Cons c1 r1)
  show ?thesis
  proof (cases r1)
    case Nil
    then show ?thesis using assms Cons by (simp add: utf8_valid.simps Let_def)
  next
    case (Cons c2 r)
    then show ?thesis using assms \<open>cs = c1 # r1\<close> by (simp add: utf8_valid.simps Let_def)
  qed
qed

lemma utf8_valid_4:
  assumes "240 \<le> (of_char c :: nat)" and "(of_char c :: nat) < 245"
  shows "utf8_valid g (c # cs) =
     (\<exists>c1 c2 c3 r. cs = c1 # c2 # c3 # r \<and> second4 c c1 \<and> cont c2 \<and> cont c3
        \<and> utf8_valid g r)"
proof (cases cs)
  case Nil
  then show ?thesis using assms by (simp add: utf8_valid.simps Let_def)
next
  case (Cons c1 r1)
  note cs = this
  show ?thesis
  proof (cases r1)
    case Nil
    then show ?thesis using assms cs by (simp add: utf8_valid.simps Let_def)
  next
    case (Cons c2 r2)
    note r1 = this
    show ?thesis
    proof (cases r2)
      case Nil
      then show ?thesis using assms cs r1 by (simp add: utf8_valid.simps Let_def)
    next
      case (Cons c3 r)
      then show ?thesis using assms cs r1 by (simp add: utf8_valid.simps Let_def)
    qed
  qed
qed

lemma utf8_valid_0:
  "128 \<le> (of_char c :: nat) \<Longrightarrow> (of_char c :: nat) < 194 \<or> 245 \<le> (of_char c :: nat) \<Longrightarrow>
   \<not> utf8_valid g (c # cs)"
  by (auto simp: utf8_valid.simps Let_def)

lemma utf8_valid_induct [consumes 1, case_names Nil One Two Three Four]:
  assumes v: "utf8_valid g s"
    and n: "P []"
    and one: "\<And>c r. (of_char c :: nat) < 128 \<Longrightarrow> utf8_valid g r \<Longrightarrow> P r \<Longrightarrow> P (c # r)"
    and two: "\<And>c c1 r. 194 \<le> (of_char c :: nat) \<Longrightarrow> (of_char c :: nat) < 224 \<Longrightarrow> cont c1
               \<Longrightarrow> utf8_valid g r \<Longrightarrow> P r \<Longrightarrow> P (c # c1 # r)"
    and three: "\<And>c c1 c2 r. 224 \<le> (of_char c :: nat) \<Longrightarrow> (of_char c :: nat) < 240
               \<Longrightarrow> second3 g c c1 \<Longrightarrow> cont c2
               \<Longrightarrow> \<not> (lead_surrogate c c1 \<and> trail_first r)
               \<Longrightarrow> utf8_valid g r \<Longrightarrow> P r \<Longrightarrow> P (c # c1 # c2 # r)"
    and four: "\<And>c c1 c2 c3 r. 240 \<le> (of_char c :: nat) \<Longrightarrow> (of_char c :: nat) < 245
               \<Longrightarrow> second4 c c1 \<Longrightarrow> cont c2 \<Longrightarrow> cont c3
               \<Longrightarrow> utf8_valid g r \<Longrightarrow> P r \<Longrightarrow> P (c # c1 # c2 # c3 # r)"
  shows "P s"
  using v
proof (induction "length s" arbitrary: s rule: less_induct)
  case less
  show ?case
  proof (cases s)
    case Nil
    then show ?thesis using n by simp
  next
    case (Cons c cs)
    define b where "b = (of_char c :: nat)"
    consider "b < 128" | "194 \<le> b" "b < 224" | "224 \<le> b" "b < 240" | "240 \<le> b" "b < 245"
      | "128 \<le> b" "b < 194 \<or> 245 \<le> b"
      by linarith
    then show ?thesis
    proof cases
      case 1
      then have "utf8_valid g cs" using less.prems Cons by (simp add: utf8_valid_1 b_def)
      then show ?thesis using one[of c cs] less.hyps[of cs] 1 Cons by (simp add: b_def)
    next
      case 2
      then obtain c1 r where r: "cs = c1 # r" "cont c1" "utf8_valid g r"
        using less.prems Cons utf8_valid_2[of c g cs] by (auto simp: b_def)
      then show ?thesis using two[of c c1 r] less.hyps[of r] 2 Cons by (simp add: b_def)
    next
      case 3
      then obtain c1 c2 r where r: "cs = c1 # c2 # r" "second3 g c c1" "cont c2"
          "\<not> (lead_surrogate c c1 \<and> trail_first r)" "utf8_valid g r"
        using less.prems Cons utf8_valid_3[of c g cs] by (auto simp: b_def)
      then show ?thesis using three[of c c1 c2 r] less.hyps[of r] 3 Cons by (simp add: b_def)
    next
      case 4
      then obtain c1 c2 c3 r where r: "cs = c1 # c2 # c3 # r" "second4 c c1" "cont c2" "cont c3"
          "utf8_valid g r"
        using less.prems Cons utf8_valid_4[of c g cs] by (auto simp: b_def)
      then show ?thesis using four[of c c1 c2 c3 r] less.hyps[of r] 4 Cons by (simp add: b_def)
    next
      case 5
      then show ?thesis using less.prems Cons utf8_valid_0[of c g cs] by (simp add: b_def)
    qed
  qed
qed

lemma cont_not_lead: "cont c \<Longrightarrow> (of_char c :: nat) \<noteq> 237"
  by (simp add: cont_def)

lemma second3_cont: "second3 g c c1 \<Longrightarrow> cont c1"
  by (auto simp: second3_def cont_def Let_def split: if_splits)

lemma second4_cont: "second4 c c1 \<Longrightarrow> cont c1"
  by (auto simp: second4_def cont_def Let_def split: if_splits)

lemma utf8_decode_1: "(of_char c :: nat) < 128 \<Longrightarrow> utf8_decode (c # cs) = c # utf8_decode cs"
  by (simp add: utf8_decode.simps Let_def)

lemma utf8_decode_2:
  "194 \<le> (of_char c :: nat) \<Longrightarrow> (of_char c :: nat) < 224 \<Longrightarrow> cont c1 \<Longrightarrow>
   utf8_decode (c # c1 # r) = c # c1 # utf8_decode r"
  by (simp add: utf8_decode.simps Let_def)

lemma utf8_decode_3:
  "224 \<le> (of_char c :: nat) \<Longrightarrow> (of_char c :: nat) < 240 \<Longrightarrow> second3 False c c1 \<Longrightarrow> cont c2 \<Longrightarrow>
   utf8_decode (c # c1 # c2 # r) = c # c1 # c2 # utf8_decode r"
  by (simp add: utf8_decode.simps Let_def)

lemma utf8_decode_4:
  "240 \<le> (of_char c :: nat) \<Longrightarrow> (of_char c :: nat) < 245 \<Longrightarrow> second4 c c1 \<Longrightarrow> cont c2 \<Longrightarrow> cont c3 \<Longrightarrow>
   utf8_decode (c # c1 # c2 # c3 # r) = c # c1 # c2 # c3 # utf8_decode r"
  by (simp add: utf8_decode.simps Let_def)

lemma utf8_decode_valid: "utf8_valid False s \<Longrightarrow> utf8_decode s = s"
  by (induction rule: utf8_valid_induct)
     (simp_all add: utf8_decode_1 utf8_decode_2 utf8_decode_3 utf8_decode_4)

lemma utf8_encode_plain:
  "(of_char c :: nat) \<noteq> 237 \<Longrightarrow> utf8_encode (c # cs) = c # utf8_encode cs"
  by (simp add: utf8_encode.simps lone_surrogate_def split: list.splits)

lemma utf8_encode_keep:
  "\<not> lone_surrogate c c1 c2 \<Longrightarrow> utf8_encode (c # c1 # c2 # r) = c # utf8_encode (c1 # c2 # r)"
  by (simp add: utf8_encode.simps)

lemma utf8_encode_lone:
  "lone_surrogate c c1 c2 \<Longrightarrow> utf8_encode (c # c1 # c2 # r) = replacement @ utf8_encode r"
  by (simp add: utf8_encode.simps)

lemma second3_not_lone: "second3 False c c1 \<Longrightarrow> \<not> lone_surrogate c c1 c2"
  by (auto simp: second3_def lone_surrogate_def Let_def split: if_splits)

lemma utf8_encode_valid: "utf8_valid False s \<Longrightarrow> utf8_encode s = s"
proof (induction rule: utf8_valid_induct)
  case (Three c c1 c2 r)
  then show ?case
    by (simp add: utf8_encode_keep second3_not_lone utf8_encode_plain cont_not_lead second3_cont)
qed (simp_all add: utf8_encode_plain cont_not_lead second4_cont)

lemma ascii_simps [simp]:
  "ascii []" "ascii (c # cs) = ((of_char c :: nat) < 128 \<and> ascii cs)"
  "ascii (a @ b) = (ascii a \<and> ascii b)"
  by (simp_all add: ascii_def)

lemma ascii_replicate [simp]: "ascii (replicate n c) = (n = 0 \<or> (of_char c :: nat) < 128)"
  by (induction n) auto

lemma utf8_valid_ascii_append: "ascii a \<Longrightarrow> utf8_valid g (a @ b) = utf8_valid g b"
  by (induction a) (simp_all add: utf8_valid_1)

lemma utf8_valid_ascii: "ascii a \<Longrightarrow> utf8_valid g a"
  using utf8_valid_ascii_append[of a g "[]"] by simp

lemma second3_False_not_lead: "second3 False c c1 \<Longrightarrow> \<not> lead_surrogate c c1"
  by (auto simp: second3_def lead_surrogate_def Let_def split: if_splits)

lemma utf8_valid_append:
  "utf8_valid False a \<Longrightarrow> utf8_valid False b \<Longrightarrow> utf8_valid False (a @ b)"
proof (induction rule: utf8_valid_induct)
  case (Three c c1 c2 r)
  then show ?case by (simp add: utf8_valid_3 second3_False_not_lead)
qed (simp_all add: utf8_valid_1 utf8_valid_2 utf8_valid_4)

lemma json_escape_high: "128 \<le> (of_char c :: nat) \<Longrightarrow> json_escape c = [c]"
  by (simp add: json_escape_def Let_def)

lemma hex_digit_ascii: "n < 16 \<Longrightarrow> (of_char (hex_digit n) :: nat) < 128"
  by (simp add: hex_digit_def of_char_of [where ?'a = nat])

lemma json_escape_ascii: "(of_char c :: nat) < 128 \<Longrightarrow> ascii (json_escape c)"
  by (simp add: json_escape_def Let_def hex_digit_ascii)

lemma surrogate_escape_ascii: "ascii (surrogate_escape c1 c2)"
  by (simp add: surrogate_escape_def Let_def hex_digit_ascii)

lemma quote_chars_plain:
  "(of_char c :: nat) \<noteq> 237 \<Longrightarrow> quote_chars (c # cs) = json_escape c @ quote_chars cs"
  by (simp add: quote_chars.simps lone_surrogate_def split: list.splits)

lemma quote_chars_keep:
  "\<not> lone_surrogate c c1 c2 \<Longrightarrow>
   quote_chars (c # c1 # c2 # r) = json_escape c @ quote_chars (c1 # c2 # r)"
  by (simp add: quote_chars.simps)

lemma quote_chars_lone:
  "lone_surrogate c c1 c2 \<Longrightarrow>
   quote_chars (c # c1 # c2 # r) = surrogate_escape c1 c2 @ quote_chars r"
  by (simp add: quote_chars.simps)

lemma quote_chars_cont: "cont c \<Longrightarrow> quote_chars (c # cs) = c # quote_chars cs"
  by (simp add: quote_chars_plain cont_not_lead json_escape_high cont_def)

lemma second3_True_not_lone:
  "second3 True c c1 \<Longrightarrow> \<not> lone_surrogate c c1 c2 \<Longrightarrow> cont c2 \<Longrightarrow>
   second3 False c c1 \<and> \<not> lead_surrogate c c1"
  by (auto simp: second3_def lone_surrogate_def lead_surrogate_def Let_def split: if_splits)

lemma utf8_valid_quote_chars: "utf8_valid True s \<Longrightarrow> utf8_valid False (quote_chars s)"
proof (induction rule: utf8_valid_induct)
  case Nil
  show ?case by simp
next
  case (One c r)
  then show ?case
    by (simp add: quote_chars_plain utf8_valid_ascii_append json_escape_ascii)
next
  case (Two c c1 r)
  then show ?case
    by (simp add: quote_chars_plain quote_chars_cont json_escape_high utf8_valid_2)
next
  case (Three c c1 c2 r)
  show ?case
  proof (cases "lone_surrogate c c1 c2")
    case True
    then show ?thesis using Three
      by (simp add: quote_chars_lone utf8_valid_ascii_append surrogate_escape_ascii)
  next
    case False
    have c1: "cont c1" using Three by (simp add: second3_cont)
    have "quote_chars (c # c1 # c2 # r) = c # c1 # c2 # quote_chars r"
      using False Three c1 by (simp add: quote_chars_keep quote_chars_cont json_escape_high)
    then show ?thesis
      using Three second3_True_not_lone[OF Three(3) False Three(4)]
      by (simp add: utf8_valid_3)
  qed
next
  case (Four c c1 c2 c3 r)
  have c1: "cont c1" using Four by (simp add: second4_cont)
  have "quote_chars (c # c1 # c2 # c3 # r) = c # c1 # c2 # c3 # quote_chars r"
    using Four c1 by (simp add: quote_chars_plain quote_chars_cont json_escape_high)
  then show ?case using Four by (simp add: utf8_valid_4)
qed

lemma second3_generalized: "second3 False c c1 \<Longrightarrow> second3 True c c1"
  by (auto simp: second3_def Let_def split: if_splits)

lemma utf8_valid_generalized: "utf8_valid False s \<Longrightarrow> utf8_valid True s"
proof (induction rule: utf8_valid_induct)
  case (Three c c1 c2 r)
  then show ?case by (simp add: utf8_valid_3 second3_generalized)
qed (simp_all add: utf8_valid_1 utf8_valid_2 utf8_valid_4)

lemma well_formed_js_string: "well_formed s \<Longrightarrow> js_string s"
  by (simp add: well_formed_def js_string_def utf8_valid_generalized)

lemma js_string_ascii [simp]: "ascii s \<Longrightarrow> js_string s"
  by (simp add: js_string_def utf8_valid_ascii)

lemma utf8_valid_replacement: "utf8_valid False r \<Longrightarrow> utf8_valid False (replacement @ r)"
  by (simp add: replacement_def utf8_valid_3 second3_def cont_def lead_surrogate_def)

lemma utf8_valid_encode: "utf8_valid True s \<Longrightarrow> utf8_valid False (utf8_encode s)"
proof (induction rule: utf8_valid_induct)
  case Nil
  show ?case by simp
next
  case (One c r)
  then show ?case by (simp add: utf8_encode_plain utf8_valid_1)
next
  case (Two c c1 r)
  then show ?case by (simp add: utf8_encode_plain cont_not_lead utf8_valid_2)
next
  case (Three c c1 c2 r)
  show ?case
  proof (cases "lone_surrogate c c1 c2")
    case True
    then show ?thesis using Three by (simp add: utf8_encode_lone utf8_valid_replacement)
  next
    case False
    have c1: "cont c1" using Three by (simp add: second3_cont)
    have "utf8_encode (c # c1 # c2 # r) = c # c1 # c2 # utf8_encode r"
      using False Three c1 by (simp add: utf8_encode_keep utf8_encode_plain cont_not_lead)
    then show ?thesis
      using Three second3_True_not_lone[OF Three(3) False Three(4)]
      by (simp add: utf8_valid_3)
  qed
next
  case (Four c c1 c2 c3 r)
  have c1: "cont c1" using Four by (simp add: second4_cont)
  have "utf8_encode (c # c1 # c2 # c3 # r) = c # c1 # c2 # c3 # utf8_encode r"
    using Four c1 by (simp add: utf8_encode_plain cont_not_lead)
  then show ?case using Four by (simp add: utf8_valid_4)
qed

lemma well_formed_Cons_ascii:
  "(of_char c :: nat) < 128 \<Longrightarrow> well_formed (c # s) = well_formed s"
  by (simp add: well_formed_def utf8_valid_1)

lemma well_formed_append: "well_formed a \<Longrightarrow> well_formed b \<Longrightarrow> well_formed (a @ b)"
  by (simp add: well_formed_def utf8_valid_append)

lemma well_formed_ascii: "ascii a \<Longrightarrow> well_formed a"
  by (simp add: well_formed_def utf8_valid_ascii)

lemma well_formed_Nil: "well_formed []"
  by (simp add: well_formed_def)

lemma utf8_roundtrip: "well_formed s \<Longrightarrow> utf8_decode (utf8_encode s) = s"
  by (simp add: well_formed_def utf8_encode_valid utf8_decode_valid)

lemma utf8_roundtrip_iff:
  assumes "js_string s"
  shows "(utf8_decode (utf8_encode s) = s) = well_formed s"
proof
  assume "well_formed s"
  then show "utf8_decode (utf8_encode s) = s" by (rule utf8_roundtrip)
next
  assume e: "utf8_decode (utf8_encode s) = s"
  have w: "utf8_valid False (utf8_encode s)"
    using assms by (simp add: js_string_def utf8_valid_encode)
  then have "utf8_decode (utf8_encode s) = utf8_encode s" by (rule utf8_decode_valid)
  then show "well_formed s" using w e by (simp add: well_formed_def)
qed

subsection \<open>String literals\<close>

lemma skip_ws_Cons: "\<not> is_ws c \<Longrightarrow> skip_ws (c # cs) = c # cs"
  by (simp add: skip_ws_def)

lemma char_eq_nat: "(c = d) = ((of_char c :: nat) = of_char d)"
  by simp

lemma hex_val_digit: "n < 16 \<Longrightarrow> hex_val (hex_digit n) = Some n"
  unfolding hex_val_def hex_digit_def Let_def by (auto simp: of_char_of [where ?'a = nat])

lemma hex_val_zero: "hex_val CHR ''0'' = Some 0"
  by (simp add: hex_val_def)

lemma parse_hex4_ctl:
  "b < 32 \<Longrightarrow> parse_hex4 (CHR ''0'' # CHR ''0'' # hex_digit (b div 16) # hex_digit (b mod 16) # r) = Some b"
proof -
  assume b: "b < 32"
  then have "b div 16 < 16" by simp
  then show ?thesis
    by (simp add: parse_hex4_def hex_val_zero hex_val_digit)
qed

lemma parse_chars_escape_step:
  "parse_chars (json_escape c @ r) =
     (case parse_chars r of None \<Rightarrow> None | Some (s, r') \<Rightarrow> Some (c # s, r'))"
proof -
  define b where "b = (of_char c :: nat)"
  have cb: "c = char_of b" by (simp add: b_def)
  consider "b = 34" | "b = 92" | "b = 8" | "b = 12" | "b = 10" | "b = 13" | "b = 9"
    | "b < 32" "b \<notin> {8, 9, 10, 12, 13}" | "32 \<le> b" "b \<noteq> 34" "b \<noteq> 92"
    by fastforce
  then show ?thesis
  proof cases
    case 8
    then have e: "json_escape c = [CHR 0x5C, CHR ''u'', CHR ''0'', CHR ''0'', hex_digit (b div 16), hex_digit (b mod 16)]"
      by (auto simp: json_escape_def b_def[symmetric] Let_def)
    have u: "utf8_of b = [c]" using 8 by (simp add: utf8_of_def cb)
    show ?thesis unfolding e
      by (simp add: parse_chars.simps parse_hex4_ctl[OF 8(1)] u split: option.splits)
  next
    case 9
    then have e: "json_escape c = [c]"
      by (auto simp: json_escape_def b_def[symmetric] Let_def)
    have "c \<noteq> CHR 0x22" "c \<noteq> CHR 0x5C" using 9 by (auto simp: b_def)
    then show ?thesis unfolding e using 9(1)
      by (simp add: parse_chars.simps(2)[of c] b_def[symmetric])
  qed (simp_all add: cb char_eq_nat json_escape_def parse_chars.simps unescape_def split: option.splits)
qed

lemma hex4_sum:
  "((u div 4096 * 16 + u div 256 mod 16) * 16 + u div 16 mod 16) * 16 + u mod 16 = (u :: nat)"
proof -
  have 1: "u div 4096 = u div 256 div 16" by (simp add: div_mult2_eq[symmetric])
  have 2: "u div 256 = u div 16 div 16" by (simp add: div_mult2_eq[symmetric])
  have 3: "u div 256 div 16 * 16 + u div 256 mod 16 = u div 256" by simp
  have 4: "u div 16 div 16 * 16 + u div 16 mod 16 = u div 16" by simp
  have 5: "u div 16 * 16 + u mod 16 = u" by simp
  show ?thesis unfolding 1 3 unfolding 2 4 unfolding 5 ..
qed

lemma surrogate_unit:
  assumes "160 \<le> (b1 :: nat)" and "b1 < 192" and "128 \<le> (b2 :: nat)" and "b2 < 192"
  defines "u \<equiv> 53248 + (b1 mod 64) * 64 + b2 mod 64"
  shows "u div 4096 = 13" and "u div 64 mod 64 = b1 - 128"
    and "u mod 64 = b2 - 128" and "2048 \<le> u" and "u < 65536"
proof -
  define x where "x = b1 - 128"
  define y where "y = b2 - 128"
  have x: "32 \<le> x" "x < 64" and y: "y < 64" using assms(1-4) by (simp_all add: x_def y_def)
  have b1: "b1 = 2 * 64 + x" and b2: "b2 = 2 * 64 + y" using assms(1-4) by (simp_all add: x_def y_def)
  have m1: "b1 mod 64 = x"
  proof -
    have "(x + 64 * 2) mod 64 = x mod 64" by (rule mod_mult_self2)
    then show ?thesis unfolding b1 using x by (simp add: add.commute)
  qed
  have m2: "b2 mod 64 = y"
  proof -
    have "(y + 64 * 2) mod 64 = y mod 64" by (rule mod_mult_self2)
    then show ?thesis unfolding b2 using y by (simp add: add.commute)
  qed
  have u: "u = y + 64 * (832 + x)" unfolding u_def m1 m2 by simp
  have "u mod 64 = y mod 64" by (simp only: u mod_mult_self2)
  then show "u mod 64 = b2 - 128" using y by (simp add: y_def)
  have "u div 64 = 832 + x + y div 64" by (simp only: u div_mult_self2)
  then have d: "u div 64 = x + 64 * 13" using y by simp
  have "u div 64 mod 64 = x mod 64" by (simp only: d mod_mult_self2)
  then show "u div 64 mod 64 = b1 - 128" using x by (simp add: x_def)
  have u2: "u = (x * 64 + y) + 4096 * 13" unfolding u by simp
  have "u div 4096 = 13 + (x * 64 + y) div 4096" by (simp only: u2 div_mult_self2)
  moreover have "x * 64 + y < 4096" using x y by simp
  ultimately show "u div 4096 = 13" by simp
  show "2048 \<le> u" "u < 65536" unfolding u using x y by simp_all
qed

lemma parse_hex4_vals:
  "hex_val h1 = Some a \<Longrightarrow> hex_val h2 = Some b \<Longrightarrow> hex_val h3 = Some c \<Longrightarrow> hex_val h4 = Some d
   \<Longrightarrow> parse_hex4 (h1 # h2 # h3 # h4 # r) = Some (((a * 16 + b) * 16 + c) * 16 + d)"
  by (simp add: parse_hex4_def)

lemma parse_hex4_digits:
  assumes "u < 65536"
  shows "parse_hex4 (hex_digit (u div 4096) # hex_digit (u div 256 mod 16)
            # hex_digit (u div 16 mod 16) # hex_digit (u mod 16) # r) = Some u"
proof -
  have a: "u div 4096 < 16" using assms by simp
  have b: "u div 256 mod 16 < 16" "u div 16 mod 16 < 16" "u mod 16 < 16" by simp_all
  show ?thesis
    by (simp only: parse_hex4_vals[OF hex_val_digit[OF a] hex_val_digit[OF b(1)]
          hex_val_digit[OF b(2)] hex_val_digit[OF b(3)]] hex4_sum)
qed

lemma parse_chars_surrogate:
  assumes "lone_surrogate c c1 c2"
  shows "parse_chars (surrogate_escape c1 c2 @ r) =
     (case parse_chars r of None \<Rightarrow> None | Some (s, r') \<Rightarrow> Some (c # c1 # c2 # s, r'))"
proof -
  define b1 where "b1 = (of_char c1 :: nat)"
  define b2 where "b2 = (of_char c2 :: nat)"
  define u where "u = 53248 + (b1 mod 64) * 64 + b2 mod 64"
  have r: "160 \<le> b1" "b1 < 192" "128 \<le> b2" "b2 < 192" and c: "(of_char c :: nat) = 237"
    using assms by (simp_all add: lone_surrogate_def cont_def b1_def b2_def)
  note f = surrogate_unit[OF r, folded u_def]
  have e: "surrogate_escape c1 c2 = [CHR 0x5C, CHR ''u'', hex_digit (u div 4096),
      hex_digit (u div 256 mod 16), hex_digit (u div 16 mod 16), hex_digit (u mod 16)]"
    by (simp add: surrogate_escape_def Let_def u_def b1_def b2_def)
  have "char_of (237 :: nat) = c" using c by (metis char_of_char)
  moreover have "char_of (128 + (b1 - 128)) = c1" using r by (simp add: b1_def)
  moreover have "char_of (128 + (b2 - 128)) = c2" using r by (simp add: b2_def)
  ultimately have u8: "utf8_of u = [c, c1, c2]"
    using f by (simp add: utf8_of_def)
  show ?thesis unfolding e
    by (simp add: parse_chars.simps parse_hex4_digits[OF f(5)] u8 split: option.splits)
qed

lemma quote_chars_other:
  assumes "\<not> (\<exists>c1 c2 r. cs = c1 # c2 # r \<and> lone_surrogate c c1 c2)"
  shows "quote_chars (c # cs) = json_escape c @ quote_chars cs"
proof (cases cs)
  case Nil
  then show ?thesis by (simp add: quote_chars.simps)
next
  case (Cons c1 r1)
  note cs = this
  show ?thesis
  proof (cases r1)
    case Nil
    then show ?thesis using cs by (simp add: quote_chars.simps)
  next
    case (Cons c2 r)
    then have "\<not> lone_surrogate c c1 c2" using assms cs by simp
    then show ?thesis using cs Cons by (simp add: quote_chars_keep)
  qed
qed

lemma parse_chars_escape:
  "parse_chars (quote_chars s @ CHR 0x22 # rest) = Some (s, rest)"
proof (induction "length s" arbitrary: s rule: less_induct)
  case less
  show ?case
  proof (cases s)
    case Nil
    then show ?thesis by (simp add: parse_chars.simps)
  next
    case (Cons c cs)
    show ?thesis
    proof (cases "\<exists>c1 c2 r. cs = c1 # c2 # r \<and> lone_surrogate c c1 c2")
      case True
      then obtain c1 c2 r where r: "cs = c1 # c2 # r" "lone_surrogate c c1 c2" by blast
      have ih: "parse_chars (quote_chars r @ CHR 0x22 # rest) = Some (r, rest)"
        using less[of r] Cons r(1) by simp
      have "quote_chars s = surrogate_escape c1 c2 @ quote_chars r"
        using Cons r by (simp add: quote_chars_lone)
      then show ?thesis
        using Cons r(1) by (simp add: parse_chars_surrogate[OF r(2)] ih)
    next
      case False
      have ih: "parse_chars (quote_chars cs @ CHR 0x22 # rest) = Some (cs, rest)"
        using less[of cs] Cons by simp
      have "quote_chars s = json_escape c @ quote_chars cs"
        using quote_chars_other[OF False] Cons by simp
      then show ?thesis
        using Cons by (simp add: parse_chars_escape_step ih)
    qed
  qed
qed

lemma parse_chars_quote: "parse_chars (tl (json_quote s) @ rest) = Some (s, rest)"
  by (simp add: json_quote_def parse_chars_escape)

subsection \<open>Numbers\<close>

lemma is_digit_char: "(n::nat) < 10 \<Longrightarrow> is_digit (char_of (48 + n))"
  by (simp add: is_digit_def of_char_of [where ?'a = nat])

lemma show_nat_digits: "c \<in> set (show_nat n) \<Longrightarrow> is_digit c"
proof (induction n arbitrary: c rule: show_nat.induct)
  case (1 n)
  show ?case
  proof (cases "n < 10")
    case True
    with 1(2) show ?thesis by (simp add: show_nat.simps[of n] is_digit_char)
  next
    case False
    with 1 show ?thesis by (auto simp: show_nat.simps[of n] is_digit_char)
  qed
qed

lemma show_nat_nonempty: "show_nat n \<noteq> []"
  by (subst show_nat.simps) simp

lemma hd_show_nat_zero: "(hd (show_nat n) = CHR ''0'') = (n = 0)"
proof (induction n rule: show_nat.induct)
  case (1 n)
  show ?case
  proof (cases "n < 10")
    case True
    then show ?thesis
      by (simp add: show_nat.simps[of n] char_eq_nat of_char_of [where ?'a = nat])
  next
    case False
    then have "hd (show_nat n) = hd (show_nat (n div 10))"
      by (simp add: show_nat.simps[of n] show_nat_nonempty)
    with 1 False show ?thesis by simp
  qed
qed

lemma show_nat_lead: "\<not> (1 < length (show_nat n) \<and> hd (show_nat n) = CHR ''0'')"
proof (cases "n = 0")
  case True
  then show ?thesis by (simp add: show_nat.simps[of 0])
next
  case False
  then show ?thesis by (simp add: hd_show_nat_zero)
qed

lemma digits_val_snoc: "digits_val (ds @ [c]) = digits_val ds * 10 + (of_char c - 48)"
  by (simp add: digits_val_def)

lemma digits_val_show: "digits_val (show_nat n) = n"
proof (induction n rule: show_nat.induct)
  case (1 n)
  show ?case
  proof (cases "n < 10")
    case True
    then show ?thesis
      by (simp add: show_nat.simps[of n] digits_val_def of_char_of [where ?'a = nat])
  next
    case False
    have "(of_char (char_of (48 + n mod 10)) :: nat) - 48 = n mod 10"
      by (simp add: of_char_of [where ?'a = nat])
    with 1 False show ?thesis
      by (simp add: show_nat.simps[of n] digits_val_snoc del: of_char_of)
  qed
qed

lemma delim_not_digit: "delim r \<Longrightarrow> r \<noteq> [] \<Longrightarrow> \<not> is_digit (hd r)"
  by (auto simp: delim_def is_digit_def)

lemma takeWhile_digits: "delim r \<Longrightarrow> takeWhile is_digit (show_nat n @ r) = show_nat n"
  by (cases r) (auto simp: takeWhile_append2 show_nat_digits dest: delim_not_digit)

lemma dropWhile_digits: "delim r \<Longrightarrow> dropWhile is_digit (show_nat n @ r) = r"
  by (cases r) (auto simp: dropWhile_append2 show_nat_digits dest: delim_not_digit)

lemma hd_show_nat_not_minus: "hd (show_nat n) \<noteq> CHR ''-''"
proof -
  have "hd (show_nat n) \<in> set (show_nat n)" using show_nat_nonempty by simp
  then have "is_digit (hd (show_nat n))" by (rule show_nat_digits)
  then show ?thesis by (auto simp: is_digit_def)
qed

lemma parse_number_nat:
  assumes "delim r"
  shows "parse_number (show_nat n @ r) = Some (JNum (int n), r)"
proof -
  have neg: "\<not> (show_nat n @ r \<noteq> [] \<and> hd (show_nat n @ r) = CHR ''-'')"
    using hd_show_nat_not_minus[of n] show_nat_nonempty[of n] by simp
  note lead = show_nat_lead[of n]
  have r: "\<not> (r \<noteq> [] \<and> (hd r = CHR ''.'' \<or> hd r = CHR ''e'' \<or> hd r = CHR ''E''))"
    using assms by (auto simp: delim_def)
  show ?thesis
    unfolding parse_number_def Let_def
    by (simp only: neg if_False takeWhile_digits[OF assms] dropWhile_digits[OF assms]
          show_nat_nonempty lead r digits_val_show)
qed

lemma parse_number_neg:
  assumes "delim r"
  shows "parse_number (CHR ''-'' # show_nat n @ r) = Some (JNum (- int n), r)"
proof -
  note lead = show_nat_lead[of n]
  have r: "\<not> (r \<noteq> [] \<and> (hd r = CHR ''.'' \<or> hd r = CHR ''e'' \<or> hd r = CHR ''E''))"
    using assms by (auto simp: delim_def)
  show ?thesis
    using lead r unfolding parse_number_def Let_def
    by (simp add: takeWhile_digits[OF assms] dropWhile_digits[OF assms]
          show_nat_nonempty digits_val_show)
qed

lemma parse_number_show_int: "delim r \<Longrightarrow> parse_number (show_int i @ r) = Some (JNum i, r)"
  by (cases "i < 0") (simp_all add: show_int_def parse_number_nat parse_number_neg)

subsection \<open>Values\<close>

lemma not_ws_simps:
  "\<not> is_ws CHR ''n''" "\<not> is_ws CHR ''t''" "\<not> is_ws CHR ''f''" "\<not> is_ws CHR 0x22"
  "\<not> is_ws CHR ''[''" "\<not> is_ws CHR ''{''" "\<not> is_ws CHR '']''" "\<not> is_ws CHR ''}''"
  "\<not> is_ws CHR '',''" "\<not> is_ws CHR '':''" "\<not> is_ws CHR ''-''"
  by (simp_all add: is_ws_def)

lemma digit_not_ws: "is_digit c \<Longrightarrow> \<not> is_ws c"
  by (auto simp: is_digit_def is_ws_def)

lemma number_start_simps:
  "number_start c \<Longrightarrow> \<not> is_ws c \<and> c \<noteq> CHR ''n'' \<and> c \<noteq> CHR ''t'' \<and> c \<noteq> CHR ''f''
     \<and> c \<noteq> CHR 0x22 \<and> c \<noteq> CHR ''['' \<and> c \<noteq> CHR ''{'' \<and> c \<noteq> CHR '']'' \<and> c \<noteq> CHR ''}''"
  by (auto simp: number_start_def is_digit_def is_ws_def)

lemma show_int_start: "\<exists>c cs. show_int i = c # cs \<and> number_start c"
proof (cases "i < 0")
  case True
  then show ?thesis by (simp add: show_int_def number_start_def)
next
  case False
  obtain c cs where e: "show_nat (nat i) = c # cs"
    using show_nat_nonempty[of "nat i"] by (cases "show_nat (nat i)") auto
  then have "is_digit c" using show_nat_digits[of c "nat i"] by simp
  with e False show ?thesis by (simp add: show_int_def number_start_def)
qed

lemma ser_start: "\<exists>c cs. ser v = c # cs \<and> value_start c"
proof (cases v)
  case (JNum i)
  obtain c cs where "show_int i = c # cs" "number_start c" using show_int_start by blast
  then show ?thesis using JNum number_start_simps[of c] by (simp add: value_start_def)
qed (auto simp: value_start_def json_quote_def is_ws_def)

lemma parse_value_leaf:
  assumes "delim r"
  shows "parse_value (Suc m) (''null'' @ r) = Some (JNull, r)"
    and "parse_value (Suc m) (''true'' @ r) = Some (JBool True, r)"
    and "parse_value (Suc m) (''false'' @ r) = Some (JBool False, r)"
    and "parse_value (Suc m) (show_int i @ r) = Some (JNum i, r)"
    and "parse_value (Suc m) (json_quote s @ r) = Some (JStr s, r)"
proof -
  show "parse_value (Suc m) (''null'' @ r) = Some (JNull, r)"
    by (simp add: skip_ws_Cons not_ws_simps parse_literal_def)
  show "parse_value (Suc m) (''true'' @ r) = Some (JBool True, r)"
    by (simp add: skip_ws_Cons not_ws_simps parse_literal_def)
  show "parse_value (Suc m) (''false'' @ r) = Some (JBool False, r)"
    by (simp add: skip_ws_Cons not_ws_simps parse_literal_def)
  show "parse_value (Suc m) (json_quote s @ r) = Some (JStr s, r)"
    by (simp add: json_quote_def skip_ws_Cons not_ws_simps parse_chars_escape)
  obtain c cs where e: "show_int i = c # cs" and c: "number_start c"
    using show_int_start by blast
  have "parse_value (Suc m) ((c # cs) @ r) = parse_number ((c # cs) @ r)"
    using number_start_simps[OF c] by (simp add: skip_ws_Cons)
  then show "parse_value (Suc m) (show_int i @ r) = Some (JNum i, r)"
    using parse_number_show_int[OF assms, of i] by (simp add: e)
qed

lemma delim_simps: "delim (CHR '','' # r)" "delim (CHR '']'' # r)" "delim (CHR ''}'' # r)" "delim []"
  by (simp_all add: delim_def)

lemma parse_elems_ser:
  assumes "\<And>v n r. v \<in> set vs \<Longrightarrow> delim r \<Longrightarrow> cost v \<le> n \<Longrightarrow>
             parse_value n (ser v @ r) = Some (v, r)"
    and "vs \<noteq> []"
    and "sum_list (map (\<lambda>v. Suc (cost v)) vs) \<le> n"
  shows "parse_elems n (commas (map ser vs) @ CHR '']'' # r) = Some (vs, r)"
  using assms
proof (induction vs arbitrary: n)
  case Nil
  then show ?case by simp
next
  case (Cons v vs)
  from Cons.prems(3) obtain m where n: "n = Suc m" and mv: "cost v \<le> m"
    and ms: "sum_list (map (\<lambda>v. Suc (cost v)) vs) \<le> m"
    by (cases n) auto
  show ?case
  proof (cases vs)
    case Nil
    have "parse_value m (ser v @ CHR '']'' # r) = Some (v, CHR '']'' # r)"
      using Cons.prems(1)[of v "CHR '']'' # r" m] mv by (simp add: delim_simps)
    then show ?thesis using Nil n by (simp add: skip_ws_Cons not_ws_simps)
  next
    case (Cons w ws)
    have tl: "parse_elems m (commas (map ser vs) @ CHR '']'' # r) = Some (vs, r)"
      using Cons.IH[of m] Cons.prems(1) ms Cons by simp
    have "parse_value m (ser v @ CHR '','' # commas (map ser vs) @ CHR '']'' # r)
        = Some (v, CHR '','' # commas (map ser vs) @ CHR '']'' # r)"
      using Cons.prems(1)[of v _ m] mv by (simp add: delim_simps)
    then show ?thesis using Cons n tl by (simp add: skip_ws_Cons not_ws_simps)
  qed
qed

lemma commas_Cons: "xs \<noteq> [] \<Longrightarrow> commas (x # xs) = x @ CHR '','' # commas xs"
  by (cases xs) simp_all

lemma member_head:
  "ser_member (k, v) @ t = CHR 0x22 # (tl (json_quote k) @ CHR '':'' # ser v @ t)"
  by (simp add: ser_member_def json_quote_def)

lemma parse_members_ser:
  assumes "\<And>kv n r. kv \<in> set kvs \<Longrightarrow> delim r \<Longrightarrow> cost (snd kv) \<le> n \<Longrightarrow>
             parse_value n (ser (snd kv) @ r) = Some (snd kv, r)"
    and "kvs \<noteq> []"
    and "sum_list (map (\<lambda>kv. Suc (cost (snd kv))) kvs) \<le> n"
  shows "parse_members n (commas (map ser_member kvs) @ CHR ''}'' # r) = Some (kvs, r)"
  using assms
proof (induction kvs arbitrary: n)
  case Nil
  then show ?case by simp
next
  case (Cons kv kvs)
  obtain k v where kv: "kv = (k, v)" by (cases kv)
  from Cons.prems(3) obtain m where n: "n = Suc m" and mv: "cost v \<le> m"
    and ms: "sum_list (map (\<lambda>kv. Suc (cost (snd kv))) kvs) \<le> m"
    by (cases n) (auto simp: kv)
  have key: "\<And>t. parse_chars (tl (json_quote k) @ t) = Some (k, t)"
    by (rule parse_chars_quote)
  show ?case
  proof (cases "kvs = []")
    case True
    have s: "commas (map ser_member (kv # kvs)) @ CHR ''}'' # r
        = CHR 0x22 # (tl (json_quote k) @ CHR '':'' # ser v @ CHR ''}'' # r)"
      using True by (simp add: kv member_head)
    have pv: "parse_value m (ser v @ CHR ''}'' # r) = Some (v, CHR ''}'' # r)"
      using Cons.prems(1)[of kv "CHR ''}'' # r" m] mv by (simp add: delim_simps kv)
    show ?thesis unfolding s n
      by (simp add: key pv skip_ws_Cons not_ws_simps kv True)
  next
    case False
    define rest where "rest = commas (map ser_member kvs) @ CHR ''}'' # r"
    have tl: "parse_members m rest = Some (kvs, r)"
      unfolding rest_def using Cons.IH[of m] Cons.prems(1) ms False by simp
    have s: "commas (map ser_member (kv # kvs)) @ CHR ''}'' # r
        = CHR 0x22 # (tl (json_quote k) @ CHR '':'' # ser v @ CHR '','' # rest)"
      using False by (simp add: kv member_head commas_Cons rest_def)
    have pv: "parse_value m (ser v @ CHR '','' # rest) = Some (v, CHR '','' # rest)"
      using Cons.prems(1)[of kv _ m] mv by (simp add: delim_simps kv)
    show ?thesis unfolding s n
      by (simp add: key pv tl skip_ws_Cons not_ws_simps kv)
  qed
qed

lemma update_fresh: "k \<notin> fst ` set al \<Longrightarrow> AList.update k v al = al @ [(k, v)]"
  by (induction al) auto

lemma foldl_update_distinct:
  "distinct (map fst (acc @ kvs)) \<Longrightarrow>
   foldl (\<lambda>al kv. AList.update (fst kv) (snd kv) al) acc kvs = acc @ kvs"
proof (induction kvs arbitrary: acc)
  case Nil
  show ?case by simp
next
  case (Cons kv kvs)
  have "fst kv \<notin> fst ` set acc" using Cons.prems by auto
  then have "AList.update (fst kv) (snd kv) acc = acc @ [kv]" by (simp add: update_fresh)
  moreover have "distinct (map fst ((acc @ [kv]) @ kvs))" using Cons.prems by simp
  ultimately show ?case using Cons.IH[of "acc @ [kv]"] by simp
qed

lemma commas_start:
  assumes "xs \<noteq> []" "\<exists>c cs. hd xs = c # cs \<and> value_start c"
  shows "\<exists>c cs. commas xs @ r = c # cs \<and> value_start c"
  using assms by (cases xs rule: commas.cases) auto

lemma parse_value_ser:
  "serializable v \<Longrightarrow> delim r \<Longrightarrow> cost v \<le> n \<Longrightarrow> parse_value n (ser v @ r) = Some (v, r)"
proof (induction v arbitrary: n r)
  case JUndefined
  then show ?case by simp
next
  case JNull
  then obtain m where "n = Suc m" by (cases n) auto
  then show ?case using parse_value_leaf(1)[OF JNull(2)] by simp
next
  case (JBool b)
  then obtain m where "n = Suc m" by (cases n) auto
  then show ?case using parse_value_leaf(2,3)[OF JBool(2)] by simp
next
  case (JNum i)
  then obtain m where "n = Suc m" by (cases n) auto
  then show ?case using parse_value_leaf(4)[OF JNum(2)] by simp
next
  case (JStr s)
  then obtain m where "n = Suc m" by (cases n) auto
  then show ?case using parse_value_leaf(5)[OF JStr(2)] by simp
next
  case (JArr vs)
  from JArr.prems(3) obtain m where n: "n = Suc m"
    and m: "sum_list (map (\<lambda>v. Suc (cost v)) vs) \<le> m" by (cases n) auto
  show ?case
  proof (cases "vs = []")
    case True
    then show ?thesis using n by (simp add: skip_ws_Cons not_ws_simps)
  next
    case False
    have ih: "\<And>v n r. v \<in> set vs \<Longrightarrow> delim r \<Longrightarrow> cost v \<le> n \<Longrightarrow>
                parse_value n (ser v @ r) = Some (v, r)"
      using JArr.IH JArr.prems(1) by simp
    have el: "parse_elems m (commas (map ser vs) @ CHR '']'' # r) = Some (vs, r)"
      by (rule parse_elems_ser[OF ih False m])
    obtain c cs where st: "commas (map ser vs) @ CHR '']'' # r = c # cs" and c: "value_start c"
      using commas_start[of "map ser vs" "CHR '']'' # r"] False ser_start[of "hd vs"]
      by (auto simp: hd_map)
    have "skip_ws (c # cs) = c # cs" "c \<noteq> CHR '']''"
      using c by (simp_all add: value_start_def skip_ws_Cons)
    then show ?thesis using n el st by (simp add: skip_ws_Cons not_ws_simps)
  qed
next
  case (JObj kvs)
  from JObj.prems(3) obtain m where n: "n = Suc m"
    and m: "sum_list (map (\<lambda>kv. Suc (cost (snd kv))) kvs) \<le> m" by (cases n) auto
  have flt: "filter (\<lambda>kv. snd kv \<noteq> JUndefined) kvs = kvs"
    using JObj.prems(1) by (auto simp: filter_id_conv)
  have "ser_member = (\<lambda>kv. json_quote (fst kv) @ CHR '':'' # ser (snd kv))"
    by (rule ext) (simp add: ser_member_def)
  then have sr: "ser (JObj kvs) = CHR ''{'' # commas (map ser_member kvs) @ ''}''"
    by (simp add: flt)
  show ?case
  proof (cases "kvs = []")
    case True
    then show ?thesis using n by (simp add: skip_ws_Cons not_ws_simps)
  next
    case False
    have ih: "\<And>kv n r. kv \<in> set kvs \<Longrightarrow> delim r \<Longrightarrow> cost (snd kv) \<le> n \<Longrightarrow>
                parse_value n (ser (snd kv) @ r) = Some (snd kv, r)"
    proof -
      fix kv n r assume a: "kv \<in> set kvs" "delim r" "cost (snd kv) \<le> n"
      obtain k v where kv: "kv = (k, v)" by (cases kv)
      have "serializable v" using JObj.prems(1) a(1) kv by auto
      then show "parse_value n (ser (snd kv) @ r) = Some (snd kv, r)"
        using JObj.IH[of kv v] a kv by simp
    qed
    have el: "parse_members m (commas (map ser_member kvs) @ CHR ''}'' # r) = Some (kvs, r)"
      by (rule parse_members_ser[OF ih False m])
    have "\<exists>c cs. hd (map ser_member kvs) = c # cs \<and> value_start c"
      using False by (simp add: hd_map ser_member_def json_quote_def value_start_def not_ws_simps)
    then obtain c cs where st: "commas (map ser_member kvs) @ CHR ''}'' # r = c # cs"
      and c: "value_start c"
      using commas_start[of "map ser_member kvs" "CHR ''}'' # r"] False by auto
    have "skip_ws (c # cs) = c # cs" "c \<noteq> CHR ''}''"
      using c by (simp_all add: value_start_def skip_ws_Cons)
    moreover have "foldl (\<lambda>al kv. AList.update (fst kv) (snd kv) al) [] kvs = kvs"
      using foldl_update_distinct[of "[]" kvs] JObj.prems(1) by simp
    ultimately show ?thesis using n el st unfolding sr
      by (simp add: skip_ws_Cons not_ws_simps)
  qed
qed

lemma commas_length:
  assumes "\<And>x. x \<in> set xs \<Longrightarrow> c x \<le> length (f x)"
  shows "sum_list (map (\<lambda>x. Suc (c x)) xs) \<le> Suc (length (commas (map f xs)))"
  using assms
proof (induction xs)
  case Nil
  show ?case by simp
next
  case (Cons x xs)
  show ?case
  proof (cases "xs = []")
    case True
    then show ?thesis using Cons.prems[of x] by simp
  next
    case False
    then have "commas (map f (x # xs)) = f x @ CHR '','' # commas (map f xs)"
      by (simp add: commas_Cons)
    then show ?thesis using Cons.IH Cons.prems by force
  qed
qed

lemma cost_le_length: "serializable v \<Longrightarrow> cost v \<le> length (ser v)"
proof (induction v)
  case (JNum i)
  obtain c cs where "show_int i = c # cs" using show_int_start by blast
  then show ?case by simp
next
  case (JArr vs)
  have "sum_list (map (\<lambda>v. Suc (cost v)) vs) \<le> Suc (length (commas (map ser vs)))"
    using JArr by (intro commas_length) simp
  then show ?case by simp
next
  case (JObj kvs)
  have flt: "filter (\<lambda>kv. snd kv \<noteq> JUndefined) kvs = kvs"
    using JObj.prems by (auto simp: filter_id_conv)
  have "\<And>kv. kv \<in> set kvs \<Longrightarrow> cost (snd kv) \<le> length (ser_member kv)"
  proof -
    fix kv assume a: "kv \<in> set kvs"
    obtain k v where kv: "kv = (k, v)" by (cases kv)
    have "cost v \<le> length (ser v)" using JObj.IH[of kv v] JObj.prems a kv by auto
    then show "cost (snd kv) \<le> length (ser_member kv)" by (simp add: kv ser_member_def)
  qed
  then have "sum_list (map (\<lambda>kv. Suc (cost (snd kv))) kvs) \<le> Suc (length (commas (map ser_member kvs)))"
    by (rule commas_length)
  moreover have "ser_member = (\<lambda>kv. json_quote (fst kv) @ CHR '':'' # ser (snd kv))"
    by (rule ext) (simp add: ser_member_def)
  ultimately show ?case by (simp add: flt)
qed (simp_all add: json_quote_def)

lemma json_roundtrip: "serializable v \<Longrightarrow> json_parse (ser v) = Some v"
  using parse_value_ser[of v "[]" "length (ser v)"] cost_le_length[of v]
  by (simp add: json_parse_def delim_simps skip_ws_def)

subsection \<open>The text of a value is well-formed\<close>

lemma show_nat_ascii: "ascii (show_nat n)"
proof (induction n rule: show_nat.induct)
  case (1 n)
  show ?case
  proof (cases "n < 10")
    case True
    then show ?thesis by (subst show_nat.simps) (simp add: of_char_of [where ?'a = nat])
  next
    case False
    have "n mod 10 < 10" by simp
    then have "(of_char (char_of (48 + n mod 10 :: nat)) :: nat) < 128"
      by (simp add: of_char_of [where ?'a = nat] del: mod_less_divisor)
    then show ?thesis using False 1 by (subst show_nat.simps) simp
  qed
qed

lemma show_int_ascii: "ascii (show_int i)"
  by (simp add: show_int_def show_nat_ascii)

lemma well_formed_quote: "js_string s \<Longrightarrow> well_formed (json_quote s)"
proof -
  assume "js_string s"
  then have "well_formed (quote_chars s)"
    by (simp add: js_string_def well_formed_def utf8_valid_quote_chars)
  then have "well_formed (quote_chars s @ [CHR 0x22])"
    by (intro well_formed_append) (simp_all add: well_formed_Cons_ascii well_formed_Nil)
  then show ?thesis by (simp add: json_quote_def well_formed_Cons_ascii)
qed

lemma well_formed_commas:
  "(\<And>x. x \<in> set xs \<Longrightarrow> well_formed x) \<Longrightarrow> well_formed (commas xs)"
proof (induction xs rule: commas.induct)
  case (3 x y ys)
  have "well_formed (commas (y # ys))" using 3 by simp
  then have "well_formed (CHR '','' # commas (y # ys))" by (simp add: well_formed_Cons_ascii)
  then show ?case using 3(2)[of x] by (simp add: well_formed_append)
qed (simp_all add: well_formed_Nil)

lemma well_formed_ser: "serializable v \<Longrightarrow> well_formed (ser v)"
proof (induction v)
  case (JNum i)
  show ?case by (simp add: well_formed_ascii show_int_ascii)
next
  case (JStr s)
  then show ?case by (simp add: well_formed_quote)
next
  case (JArr vs)
  have "well_formed (commas (map ser vs))"
    using JArr by (intro well_formed_commas) auto
  then have "well_formed (commas (map ser vs) @ '']'')"
    by (intro well_formed_append) (simp_all add: well_formed_Cons_ascii well_formed_Nil)
  then show ?case by (simp add: well_formed_Cons_ascii)
next
  case (JObj kvs)
  let ?m = "\<lambda>kv. json_quote (fst kv) @ CHR '':'' # ser (snd kv)"
  have "well_formed (?m kv)" if a: "kv \<in> set kvs" for kv
  proof -
    obtain k v where kv: "kv = (k, v)" by (cases kv)
    have "well_formed (ser v)" using JObj.IH[of kv v] JObj.prems a kv by auto
    then have "well_formed (CHR '':'' # ser v)" by (simp add: well_formed_Cons_ascii)
    moreover have "well_formed (json_quote k)" using JObj.prems a kv by (auto simp: well_formed_quote)
    ultimately show ?thesis by (simp add: kv well_formed_append)
  qed
  then have "well_formed (commas (map ?m (filter (\<lambda>kv. snd kv \<noteq> JUndefined) kvs)))"
    by (intro well_formed_commas) auto
  then have "well_formed (commas (map ?m (filter (\<lambda>kv. snd kv \<noteq> JUndefined) kvs)) @ ''}'')"
    by (intro well_formed_append) (simp_all add: well_formed_Cons_ascii well_formed_Nil)
  then show ?case by (simp add: well_formed_Cons_ascii)
qed (simp_all add: well_formed_Cons_ascii well_formed_Nil)

lemma ser_hd: "\<exists>c cs. ser v = c # cs \<and> c \<noteq> CHR ''c''"
proof (cases v)
  case (JNum i)
  obtain c cs where "show_int i = c # cs" "number_start c" using show_int_start by blast
  then show ?thesis using JNum by (auto simp: number_start_def is_digit_def)
qed (auto simp: json_quote_def)

section \<open>Properties of the store\<close>

lemma clock_db_store [simp]: "clock (db_store s k ent) = clock s"
  by (simp add: db_store_def)

lemma online_db_store [simp]: "online (db_store s k ent) = online s"
  by (simp add: db_store_def)

lemma clock_db_remove [simp]: "clock (db_remove s k) = clock s"
  by (simp add: db_remove_def)

lemma online_db_remove [simp]: "online (db_remove s k) = online s"
  by (simp add: db_remove_def)

lemma db_lookup_store:
  "db_lookup (db_store s k ent) k' =
     (if k' = k then (if expired (clock s) (snd ent) then None else Some ent) else db_lookup s k')"
  by (simp add: db_lookup_def db_store_def update_conv' split: option.splits)

lemma db_lookup_remove:
  "db_lookup (db_remove s k) k' = (if k' = k then None else db_lookup s k')"
  by (simp add: db_lookup_def db_remove_def delete_conv' split: option.splits)

lemma clock_foldl_remove [simp]: "clock (foldl db_remove s ks) = clock s"
  by (induction ks arbitrary: s) simp_all

lemma online_foldl_remove [simp]: "online (foldl db_remove s ks) = online s"
  by (induction ks arbitrary: s) simp_all

lemma db_lookup_foldl_remove:
  "db_lookup (foldl db_remove s ks) k = (if k \<in> set ks then None else db_lookup s k)"
  by (induction ks arbitrary: s) (auto simp: db_lookup_remove)

lemma clock_apply_command [simp]: "clock (apply_command s c) = clock s"
  by (cases c) (auto split: option.splits rvalue.splits prod.splits)

lemma online_apply_command [simp]: "online (apply_command s c) = online s"
  by (cases c) (auto split: option.splits rvalue.splits prod.splits)

lemma clock_foldl_apply [simp]: "clock (foldl apply_command s cs) = clock s"
  by (induction cs arbitrary: s) simp_all

lemma online_foldl_apply [simp]: "online (foldl apply_command s cs) = online s"
  by (induction cs arbitrary: s) simp_all

lemma clock_pipeline [simp]: "clock (pipeline_exec s cs) = clock s"
  by (simp add: pipeline_exec_def)

lemma online_pipeline [simp]: "online (pipeline_exec s cs) = online s"
  by (simp add: pipeline_exec_def)

lemma apply_command_frame:
  "k \<notin> command_keys c \<Longrightarrow> db_lookup (apply_command s c) k = db_lookup s k"
  by (cases c)
     (auto simp: db_lookup_store db_lookup_remove db_lookup_foldl_remove
           split: option.splits rvalue.splits prod.splits)


lemma not_expired_future: "0 < d \<Longrightarrow> \<not> expired now (Some (now + d))"
  by (simp add: expired_def)

lemma tag_step_keeps_entry:
  assumes "db_lookup s fk = Some (RString data, Some (clock s + nat e))" and "1 \<le> e"
  shows "db_lookup (apply_command (apply_command s (SADD t fk)) (EXPIRE t e)) fk
           = Some (RString data, Some (clock s + nat e))"
proof (cases "t = fk")
  case True
  have "apply_command s (SADD t fk) = s" using assms(1) True by simp
  then show ?thesis using assms True
    by (simp add: db_lookup_store not_expired_future)
next
  case False
  then show ?thesis using assms(1) by (simp add: apply_command_frame del: apply_command.simps)
qed

lemma tag_cmds_keep_entry:
  assumes "db_lookup s fk = Some (RString data, Some (clock s + nat e))" and "1 \<le> e"
  shows "db_lookup (foldl apply_command s
            (concat (map (\<lambda>tag. [SADD (tk tag) fk, EXPIRE (tk tag) e]) ts))) fk
           = Some (RString data, Some (clock s + nat e))"
  using assms(1)
proof (induction ts arbitrary: s)
  case Nil
  then show ?case by simp
next
  case (Cons t ts)
  let ?s = "apply_command (apply_command s (SADD (tk t) fk)) (EXPIRE (tk t) e)"
  have "db_lookup ?s fk = Some (RString data, Some (clock ?s + nat e))"
    using tag_step_keeps_entry[OF Cons.prems assms(2)] by (simp del: apply_command.simps)
  from Cons.IH[OF this] show ?case by (simp del: apply_command.simps)
qed

lemma set_commands_eq:
  "set_commands svc key data ttl tags =
     SETEX (generateKey svc key None) (effective_ttl svc ttl) data #
     concat (map (\<lambda>tag. [SADD (tag_key svc tag) (generateKey svc key None),
                            EXPIRE (tag_key svc tag) (effective_ttl svc ttl)])
                 (case tags of None \<Rightarrow> [] | Some ts \<Rightarrow> ts))"
  by (cases tags) (auto simp: set_commands_def Let_def)

lemma set_stores_entry:
  assumes "online s" and "1 \<le> effective_ttl svc ttl"
  shows "db_lookup (pipeline_exec s (set_commands svc key data ttl tags)) (generateKey svc key None)
           = Some (RString data, Some (clock s + nat (effective_ttl svc ttl)))"
proof -
  let ?fk = "generateKey svc key None" and ?e = "effective_ttl svc ttl"
  let ?s1 = "apply_command s (SETEX ?fk ?e data)"
  have 1: "db_lookup ?s1 ?fk = Some (RString data, Some (clock ?s1 + nat ?e))"
    using assms(2) by (simp add: db_lookup_store not_expired_future)
  show ?thesis
    using tag_cmds_keep_entry[OF 1 assms(2), of "tag_key svc"] assms(1)
    by (simp add: pipeline_exec_def set_commands_eq del: apply_command.simps)
qed

section \<open>Round trip through the cache\<close>

lemma decompress_compress:
  "well_formed s \<Longrightarrow> \<not> prefix ''compressed:'' s \<Longrightarrow> decompress (compress s) = s"
  by (simp add: compress_def decompress_def b64_roundtrip utf8_roundtrip)

lemma decompress_compress_iff:
  assumes "js_string s" and "\<not> prefix ''compressed:'' s"
  shows "(decompress (compress s) = s) = (well_formed s \<or> js_length s \<le> 1024)"
proof (cases "js_length s \<le> 1024")
  case True
  then show ?thesis using assms(2) by (simp add: compress_def decompress_def compressionThreshold_def)
next
  case False
  then have "decompress (compress s) = utf8_decode (utf8_encode s)"
    by (simp add: compress_def decompress_def compressionThreshold_def b64_roundtrip)
  then show ?thesis using False utf8_roundtrip_iff[OF assms(1)] by simp
qed

text \<open>Bytes that are no UTF-8 text come back as U+FFFD: here the single byte \<^verbatim>\<open>FF\<close>.\<close>

lemma decompress_ill_formed: "decompress ''compressed:/w=='' = replacement"
  by (simp add: decompress_def b64_decode_def b64_val_def utf8_decode.simps)

lemma compress_small: "js_length s \<le> 1024 \<Longrightarrow> compress s = s"
  by (simp add: compress_def compressionThreshold_def)

lemma ser_not_marked: "\<not> prefix ''compressed:'' (ser v)"
proof -
  obtain c cs where "ser v = c # cs" "c \<noteq> CHR ''c''" using ser_hd by blast
  then show ?thesis by simp
qed

lemma compress_nonempty: "s \<noteq> [] \<Longrightarrow> compress s \<noteq> []"
  by (simp add: compress_def)

lemma ser_nonempty: "ser v \<noteq> []"
  using ser_hd[of v] by auto

lemma cache_get_stored:
  assumes "online s" and "serializable v"
    and "db_lookup s (generateKey svc k nsopt) = Some (RString (compress (ser v)), e)"
  shows "cache_get_try svc s k nsopt = Inr v"
  using assms
  by (simp add: cache_get_try_def redis_get_def compress_nonempty ser_nonempty
        decompress_compress well_formed_ser ser_not_marked json_roundtrip)

lemma stringify_serializable: "serializable v \<Longrightarrow> json_stringify v = Some (ser v)"
  by (cases v) (simp_all add: json_stringify_def)

lemma cache_set_stores:
  assumes "online s" and "serializable v" and "1 \<le> effective_ttl svc ttl"
  shows "fst (cache_set svc s k v ttl tags) = True
       \<and> db_lookup (snd (cache_set svc s k v ttl tags)) (generateKey svc k None)
           = Some (RString (compress (ser v)), Some (clock s + nat (effective_ttl svc ttl)))
       \<and> clock (snd (cache_set svc s k v ttl tags)) = clock s
       \<and> online (snd (cache_set svc s k v ttl tags))"
  using set_stores_entry[OF assms(1,3), of k "compress (ser v)" tags] assms(1)
  by (simp add: cache_set_def stringify_serializable[OF assms(2)])

text \<open>
  The round trip. On a connected store, for every JSON-serializable value \<open>v\<close>, key \<open>k\<close>
  and time to live \<open>t \<ge> 1\<close>, \<^verbatim>\<open>set(k, v, t)\<close> reports success and a \<^verbatim>\<open>get(k)\<close>
  that follows it at once returns \<open>v\<close>, whether or not the payload was stored with the
  marker.
\<close>

lemma set_then_get:
  assumes "online s" and "serializable v" and "1 \<le> t"
  shows "fst (cache_set svc s k v (Some t) tags) = True
       \<and> cache_get svc (snd (cache_set svc s k v (Some t) tags)) k None = v"
proof -
  have e: "effective_ttl svc (Some t) = t" using assms(3) by (simp add: effective_ttl_def)
  let ?s' = "snd (cache_set svc s k v (Some t) tags)"
  note st = cache_set_stores[OF assms(1,2), of svc "Some t" k tags, unfolded e, OF assms(3)]
  have "cache_get_try svc ?s' k None = Inr v"
    by (rule cache_get_stored[OF _ assms(2)]) (use st in auto)
  then have "cache_get svc ?s' k None = v" by (simp add: cache_get_def)
  then show ?thesis using st by simp
qed

lemma length_accented: "length (accented n) = 2 * n"
  by (induction n) (simp_all add: accented_def)

lemma js_length_accented: "js_length (accented n) = n"
  by (induction n) (simp_all add: accented_def js_length_def utf16_units_def)

lemma escape_accented: "quote_chars (accented n) = accented n"
  by (induction n) (simp_all add: accented_def quote_chars_plain json_escape_high)

lemma js_string_accented: "js_string (accented n)"
  unfolding js_string_def
  by (induction n) (simp_all add: accented_def utf8_valid_2 cont_def)

lemma ser_accented: "ser (JStr (accented n)) = CHR 0x22 # accented n @ [CHR 0x22]"
  by (simp add: json_quote_def escape_accented)

lemma js_length_append: "js_length (a @ b) = js_length a + js_length b"
  by (simp add: js_length_def)

text \<open>
  Claim C1: a value whose serialization exceeds 1024 bytes is stored behind the
  compression marker and comes back from \<^verbatim>\<open>get\<close>. \<^verbatim>\<open>compress\<close> compares
  \<^verbatim>\<open>data.length\<close>, the number of UTF-16 code units, with the threshold. The string of
  600 letters e with an acute accent serializes to 1202 bytes but to 602 code units, and
  \<^verbatim>\<open>set\<close> stores it without the marker.
\<close>

theorem threshold_counts_code_units:
  "1024 < length (ser (JStr (accented 600)))
   \<and> db_lookup (snd (cache_set demo_service empty_store ''k'' (JStr (accented 600)) (Some 60) None))
        ''app:k'' = Some (RString (ser (JStr (accented 600))), Some 60)
   \<and> \<not> prefix ''compressed:'' (ser (JStr (accented 600)))"
proof -
  have "js_length (CHR 0x22 # accented 600 @ [CHR 0x22]) = 602"
    using js_length_accented[of 600] by (simp add: js_length_def utf16_units_def)
  then have l: "js_length (ser (JStr (accented 600))) = 602"
    by (simp only: ser_accented)
  have "1024 < length (CHR 0x22 # accented 600 @ [CHR 0x22])"
    by (simp add: length_accented)
  then have "1024 < length (ser (JStr (accented 600)))"
    by (simp only: ser_accented)
  moreover have "db_lookup (snd (cache_set demo_service empty_store ''k'' (JStr (accented 600)) (Some 60) None))
        ''app:k'' = Some (RString (ser (JStr (accented 600))), Some 60)"
    using cache_set_stores[of empty_store "JStr (accented 600)" demo_service "Some 60" "''k''" None] l
    by (simp add: empty_store_def demo_service_def generateKey_def effective_ttl_def compress_small
          js_string_accented)
  ultimately show ?thesis using ser_not_marked[of "JStr (accented 600)"] by blast
qed

section \<open>Pattern deletion\<close>















section \<open>Compression and key derivation\<close>

text \<open>
  Claim C9, as amended. \<^verbatim>\<open>decompress\<close> undoes \<^verbatim>\<open>compress\<close> on every string without
  unpaired surrogates that does not begin with \<^verbatim>\<open>compressed:\<close>. Among all strings that
  do not begin with the marker, it undoes \<^verbatim>\<open>compress\<close> on exactly those that have no
  unpaired surrogate or are at most 1024 code units long. \<^verbatim>\<open>compress\<close> returns a string
  of length at most 1024 as it is. No output of \<^verbatim>\<open>JSON.stringify\<close> begins with the
  marker, and the output for a serializable value has no unpaired surrogate.
\<close>

theorem compress_left_inverse:
  "(well_formed s \<and> \<not> prefix ''compressed:'' s \<longrightarrow> decompress (compress s) = s)
   \<and> (js_string s \<and> \<not> prefix ''compressed:'' s \<longrightarrow>
        (decompress (compress s) = s) = (well_formed s \<or> js_length s \<le> 1024))
   \<and> (js_length s \<le> 1024 \<longrightarrow> compress s = s)
   \<and> (json_stringify v = Some s \<longrightarrow> \<not> prefix ''compressed:'' s)
   \<and> (serializable v \<longrightarrow> well_formed (ser v))"
proof (intro conjI impI)
  assume "well_formed s \<and> \<not> prefix ''compressed:'' s"
  then show "decompress (compress s) = s" by (simp add: decompress_compress)
next
  assume "js_string s \<and> \<not> prefix ''compressed:'' s"
  then show "(decompress (compress s) = s) = (well_formed s \<or> js_length s \<le> 1024)"
    by (simp add: decompress_compress_iff)
next
  assume "js_length s \<le> 1024"
  then show "compress s = s" by (rule compress_small)
next
  assume "json_stringify v = Some s"
  then show "\<not> prefix ''compressed:'' s"
    by (auto simp: json_stringify_def ser_not_marked split: if_splits)
next
  assume "serializable v"
  then show "well_formed (ser v)" by (rule well_formed_ser)
qed

lemma js_length_replicate: "js_length (replicate n CHR ''x'') = n"
  by (induction n) (simp_all add: js_length_def utf16_units_def)

lemma js_length_unpaired: "js_length (unpaired n) = Suc n"
  using js_length_replicate[of n] by (simp add: unpaired_def js_length_def utf16_units_def)

lemma trail_first_replicate: "\<not> trail_first (replicate n CHR ''x'')"
proof (cases n)
  case 0
  then show ?thesis by (simp add: trail_first_def)
next
  case (Suc m)
  then show ?thesis by (cases m) (simp_all add: trail_first_def)
qed

lemma js_string_unpaired: "js_string (unpaired n)"
  unfolding js_string_def unpaired_def
  by (simp add: utf8_valid_3 second3_def cont_def trail_first_replicate utf8_valid_ascii)

lemma roundtrip_unpaired:
  "utf8_decode (utf8_encode (unpaired n)) = replacement @ replicate n CHR ''x''"
proof -
  have a: "utf8_valid False (replicate n CHR ''x'')" by (simp add: utf8_valid_ascii)
  have "utf8_encode (unpaired n) = replacement @ replicate n CHR ''x''"
    unfolding unpaired_def
    by (simp add: utf8_encode_lone lone_surrogate_def cont_def utf8_encode_valid[OF a])
  then show ?thesis
    by (simp add: utf8_decode_valid[OF utf8_valid_replacement[OF a]])
qed

text \<open>
  Claim C9 as it is stated fails for a string that has an unpaired surrogate and more than
  1024 code units: of \<^verbatim>\<open>'\\uD800' + 'x'.repeat(1024)\<close>, which does not begin with the
  marker, \<^verbatim>\<open>Buffer.from\<close> keeps U+FFFD in the place of the surrogate, and that is what
  \<^verbatim>\<open>decompress\<close> returns.
\<close>

theorem unpaired_surrogate_replaced:
  "js_string (unpaired 1024) \<and> js_length (unpaired 1024) = 1025
   \<and> \<not> prefix ''compressed:'' (unpaired 1024)
   \<and> decompress (compress (unpaired 1024)) = replacement @ replicate 1024 CHR ''x''
   \<and> decompress (compress (unpaired 1024)) \<noteq> unpaired 1024"
proof -
  have l: "js_length (unpaired 1024) = 1025" by (simp add: js_length_unpaired)
  have p: "\<not> prefix ''compressed:'' (unpaired 1024)" by (simp add: unpaired_def)
  have "compress (unpaired 1024) = ''compressed:'' @ b64_encode (utf8_encode (unpaired 1024))"
    by (simp add: compress_def compressionThreshold_def l)
  then have d: "decompress (compress (unpaired 1024)) = replacement @ replicate 1024 CHR ''x''"
    by (simp add: decompress_def b64_roundtrip roundtrip_unpaired)
  have "replacement @ replicate 1024 CHR ''x'' \<noteq> unpaired 1024"
    by (simp add: replacement_def unpaired_def)
  then show ?thesis using l p d js_string_unpaired[of 1024] by simp
qed

text \<open>
  Claim C9, the theorem at the string of 2000 letters x, which \<^verbatim>\<open>compress\<close> writes in
  base64 behind the marker, at the unpaired surrogate followed by 1023 letters x, which it
  returns as it is, and at the serialization of \<^verbatim>\<open>[1,2,3]\<close>.
\<close>

theorem compress_left_inverse_witness:
  "well_formed (replicate 2000 CHR ''x'') \<and> \<not> prefix ''compressed:'' (replicate 2000 CHR ''x'')
   \<and> compress (replicate 2000 CHR ''x'')
        = ''compressed:'' @ b64_encode (replicate 2000 CHR ''x'')
   \<and> decompress (compress (replicate 2000 CHR ''x'')) = replicate 2000 CHR ''x''
   \<and> js_string (unpaired 1023) \<and> \<not> prefix ''compressed:'' (unpaired 1023)
   \<and> js_length (unpaired 1023) \<le> 1024
   \<and> compress (unpaired 1023) = unpaired 1023
   \<and> decompress (compress (unpaired 1023)) = unpaired 1023
   \<and> json_stringify (JArr [JNum 1, JNum 2, JNum 3]) = Some ''[1,2,3]''
   \<and> \<not> prefix ''compressed:'' ''[1,2,3]''
   \<and> serializable (JArr [JNum 1, JNum 2, JNum 3])
   \<and> well_formed (ser (JArr [JNum 1, JNum 2, JNum 3]))"
proof -
  have 1: "well_formed (replicate 2000 CHR ''x'')" by (simp add: well_formed_ascii)
  have 2: "\<not> prefix ''compressed:'' (replicate 2000 CHR ''x'')"
    by (simp add: prefix_def numeral_eq_Suc)
  have 3: "compress (replicate 2000 CHR ''x'')
      = ''compressed:'' @ b64_encode (replicate 2000 CHR ''x'')"
    using 1 by (simp add: compress_def compressionThreshold_def js_length_replicate
          utf8_encode_valid well_formed_def)
  have 4: "js_string (unpaired 1023)" by (rule js_string_unpaired)
  have 5: "\<not> prefix ''compressed:'' (unpaired 1023)" by (simp add: unpaired_def)
  have 6: "js_length (unpaired 1023) \<le> 1024" by (simp add: js_length_unpaired)
  have 7: "json_stringify (JArr [JNum 1, JNum 2, JNum 3]) = Some ''[1,2,3]''"
    by (simp add: json_stringify_def show_int_def show_nat.simps char_eq_nat)
  have 8: "serializable (JArr [JNum 1, JNum 2, JNum 3])" by simp
  note a = compress_left_inverse[of "replicate 2000 CHR ''x''" "JArr [JNum 1, JNum 2, JNum 3]"]
  note b = compress_left_inverse[of "unpaired 1023" "JArr [JNum 1, JNum 2, JNum 3]"]
  note c = compress_left_inverse[of "''[1,2,3]''" "JArr [JNum 1, JNum 2, JNum 3]"]
  have 9: "decompress (compress (replicate 2000 CHR ''x'')) = replicate 2000 CHR ''x''"
    using a 1 2 by blast
  have 10: "compress (unpaired 1023) = unpaired 1023" using b 6 by blast
  have 11: "decompress (compress (unpaired 1023)) = unpaired 1023" using b 4 5 6 by blast
  have 12: "\<not> prefix ''compressed:'' ''[1,2,3]''" using c 7 by blast
  have 13: "well_formed (ser (JArr [JNum 1, JNum 2, JNum 3]))" using c 8 by blast
  show ?thesis using 1 2 3 4 5 6 7 8 9 10 11 12 13 by blast
qed

text \<open>
  Claim C10. In the default key generator, a request without a (truthy) user id gets the
  same key with \<^verbatim>\<open>includeAuth\<close> on as with it off: the user segment is left out. So it
  shares its key with every unauthenticated request of the same method, path and query.
\<close>

theorem default_key_without_user:
  assumes "\<not> truthy_id (req_user_id req)" and "\<not> truthy_id (req_user_id req')"
    and "req_method req' = req_method req" and "req_path req' = req_path req"
    and "req_query req' = req_query req"
  shows "default_key md5hex True req = default_key md5hex False req
       \<and> default_key md5hex True req = default_key md5hex includeAuth req'"
  using assms by (simp add: default_key_def query_string_def Let_def)

text \<open>
  Claim C10, the theorem at an unauthenticated \<^verbatim>\<open>GET /api/dashboard?page=2\<close>, with a
  digest that returns its argument.
\<close>

theorem default_key_without_user_witness:
  "\<not> truthy_id (req_user_id anonymous_request)
   \<and> default_key identity_digest True anonymous_request = default_key identity_digest False anonymous_request
   \<and> default_key identity_digest True anonymous_request = ''GET:/api/dashboard:page=2''"
proof -
  have 1: "\<not> truthy_id (req_user_id anonymous_request)"
    by (simp add: anonymous_request_def truthy_id_def)
  have 2: "default_key identity_digest False anonymous_request = ''GET:/api/dashboard:page=2''"
    by (simp add: anonymous_request_def default_key_def query_string_def identity_digest_def)
  show ?thesis
    using default_key_without_user[OF 1 1 refl refl refl, of identity_digest False] 1 2 by simp
qed

section \<open>getOrSet\<close>

lemma cache_get_miss_of_error: "cache_get_try svc s key None = Inl e \<Longrightarrow> cache_get svc s key None = JNull"
  by (simp add: cache_get_def)

lemma getOrSet_miss:
  assumes "cache_get svc s key None = JNull" and "fetcher calls = Inr v"
  shows "getOrSet svc s key fetcher calls ttl tags
       = (Inr v, snd (cache_set svc s key v ttl tags), Suc calls)"
  using assms by (simp add: getOrSet_def)

lemma getOrSet_hit:
  assumes "cache_get svc s key None = v" and "v \<noteq> JNull"
  shows "getOrSet svc s key fetcher calls ttl tags = (Inr v, s, calls)"
  using assms by (simp add: getOrSet_def)

lemma cache_get_after_set:
  assumes "online s" and "serializable v" and "1 \<le> effective_ttl svc ttl"
  shows "cache_get svc (snd (cache_set svc s key v ttl tags)) key None = v"
proof -
  note st = cache_set_stores[OF assms, of key tags]
  have "cache_get_try svc (snd (cache_set svc s key v ttl tags)) key None = Inr v"
    by (rule cache_get_stored[OF _ assms(2)]) (use st in auto)
  then show ?thesis by (simp add: cache_get_def)
qed

text \<open>
  Claim C4, as amended. A read that fails inside \<^verbatim>\<open>getOrSet\<close> is swallowed by \<^verbatim>\<open>get\<close>
  and counts as a miss: the fetcher is invoked once, its result is returned, and the write
  is attempted as after any miss, so that on a connected store (serializable value, time to
  live of at least one second) the value is cached. A write that fails inside \<^verbatim>\<open>set\<close>
  (the value is \<^verbatim>\<open>undefined\<close>) is swallowed as well: the value is returned and the store
  is unchanged. After a miss, a fetcher that fails whenever it is invoked makes
  \<^verbatim>\<open>getOrSet\<close> fail, and the store is unchanged.
\<close>

theorem getOrSet_on_errors:
  "(cache_get_try svc s key None = Inl e \<and> fetcher calls = Inr v \<longrightarrow>
      getOrSet svc s key fetcher calls ttl tags
        = (Inr v, snd (cache_set svc s key v ttl tags), Suc calls))
   \<and> (cache_get_try svc s key None = Inl e \<and> fetcher calls = Inr v \<and> online s
        \<and> serializable v \<and> 1 \<le> effective_ttl svc ttl \<longrightarrow>
      cache_get svc (fst (snd (getOrSet svc s key fetcher calls ttl tags))) key None = v)
   \<and> (cache_get svc s key None = JNull \<and> fetcher calls = Inr JUndefined \<longrightarrow>
      getOrSet svc s key fetcher calls ttl tags = (Inr JUndefined, s, Suc calls))
   \<and> (cache_get svc s key None = JNull \<and> (\<forall>n. isl (fetcher n)) \<longrightarrow>
      isl (fst (getOrSet svc s key fetcher calls ttl tags))
      \<and> fst (snd (getOrSet svc s key fetcher calls ttl tags)) = s)"
proof (intro conjI impI)
  assume "cache_get svc s key None = JNull \<and> fetcher calls = Inr JUndefined"
  then show "getOrSet svc s key fetcher calls ttl tags = (Inr JUndefined, s, Suc calls)"
    by (simp add: getOrSet_def cache_set_def json_stringify_def)
next
  assume a: "cache_get_try svc s key None = Inl e \<and> fetcher calls = Inr v"
  then show "getOrSet svc s key fetcher calls ttl tags
        = (Inr v, snd (cache_set svc s key v ttl tags), Suc calls)"
    by (simp add: getOrSet_miss cache_get_miss_of_error)
next
  assume a: "cache_get_try svc s key None = Inl e \<and> fetcher calls = Inr v \<and> online s
        \<and> serializable v \<and> 1 \<le> effective_ttl svc ttl"
  then have "getOrSet svc s key fetcher calls ttl tags
        = (Inr v, snd (cache_set svc s key v ttl tags), Suc calls)"
    by (simp add: getOrSet_miss cache_get_miss_of_error)
  then show "cache_get svc (fst (snd (getOrSet svc s key fetcher calls ttl tags))) key None = v"
    using a by (simp add: cache_get_after_set)
next
  assume a: "cache_get svc s key None = JNull \<and> (\<forall>n. isl (fetcher n))"
  then obtain x y where "fetcher calls = Inl x" "fetcher (Suc calls) = Inl y"
    by (metis isl_def)
  then show "isl (fst (getOrSet svc s key fetcher calls ttl tags))"
    using a by (simp add: getOrSet_def)
next
  assume a: "cache_get svc s key None = JNull \<and> (\<forall>n. isl (fetcher n))"
  then obtain x where "fetcher calls = Inl x" by (metis isl_def)
  then show "fst (snd (getOrSet svc s key fetcher calls ttl tags)) = s"
    using a by (simp add: getOrSet_def)
qed

lemma corrupt_get: "cache_get_try demo_service corrupt_store ''k'' None = Inl SyntaxError"
  by (simp add: cache_get_try_def redis_get_def corrupt_store_def demo_service_def generateKey_def
        db_lookup_def expired_def decompress_def json_parse_def skip_ws_def is_ws_def
        parse_number_def is_digit_def)

text \<open>
  Claim C4 as it is stated fails where it says that the fetched result is not cached after
  a cache operation failed: the entry under the key is not JSON, the read ends in a
  \<^verbatim>\<open>SyntaxError\<close>, and after \<^verbatim>\<open>getOrSet\<close> the key holds the fetched value.
\<close>

theorem getOrSet_caches_after_read_error:
  "cache_get_try demo_service corrupt_store ''k'' None = Inl SyntaxError
   \<and> fst (getOrSet demo_service corrupt_store ''k'' seven 0 (Some 60) None) = Inr (JNum 7)
   \<and> db_lookup (fst (snd (getOrSet demo_service corrupt_store ''k'' seven 0 (Some 60) None)))
        ''app:k'' = Some (RString ''7'', Some 60)"
proof -
  have g: "getOrSet demo_service corrupt_store ''k'' seven 0 (Some 60) None
      = (Inr (JNum 7), snd (cache_set demo_service corrupt_store ''k'' (JNum 7) (Some 60) None), Suc 0)"
    by (rule getOrSet_miss) (simp_all add: cache_get_miss_of_error[OF corrupt_get] seven_def)
  have "db_lookup (snd (cache_set demo_service corrupt_store ''k'' (JNum 7) (Some 60) None)) ''app:k''
      = Some (RString ''7'', Some 60)"
    using cache_set_stores[of corrupt_store "JNum 7" demo_service "Some 60" "''k''" None]
    by (simp add: corrupt_store_def demo_service_def generateKey_def effective_ttl_def
          compress_def compressionThreshold_def js_length_def utf16_units_def
          show_int_def show_nat.simps char_eq_nat)
  then show ?thesis by (simp add: g corrupt_get)
qed

text \<open>
  Claim C4, the theorem at an entry that is not JSON with a fetcher that returns 7, and
  at an empty store with a fetcher that returns \<^verbatim>\<open>undefined\<close> and with one that always
  fails.
\<close>

theorem getOrSet_on_errors_witness:
  "cache_get_try demo_service corrupt_store ''k'' None = Inl SyntaxError \<and> seven 0 = Inr (JNum 7)
   \<and> online corrupt_store \<and> serializable (JNum 7) \<and> 1 \<le> effective_ttl demo_service (Some 60)
   \<and> cache_get demo_service
        (fst (snd (getOrSet demo_service corrupt_store ''k'' seven 0 (Some 60) None))) ''k'' None
       = JNum 7
   \<and> cache_get demo_service empty_store ''k'' None = JNull
   \<and> undefined_fetcher 0 = Inr JUndefined
   \<and> getOrSet demo_service empty_store ''k'' undefined_fetcher 0 None None
        = (Inr JUndefined, empty_store, 1)
   \<and> isl (fst (getOrSet demo_service empty_store ''k'' failing_fetcher 0 None None))
   \<and> fst (snd (getOrSet demo_service empty_store ''k'' failing_fetcher 0 None None)) = empty_store"
proof -
  have 1: "seven 0 = Inr (JNum 7)" by (simp add: seven_def)
  have 2: "online corrupt_store" by (simp add: corrupt_store_def)
  have 3: "serializable (JNum 7)" by simp
  have 4: "1 \<le> effective_ttl demo_service (Some 60)" by (simp add: effective_ttl_def)
  have 5: "cache_get demo_service empty_store ''k'' None = JNull"
    by (simp add: cache_get_def cache_get_try_def redis_get_def empty_store_def db_lookup_def)
  have 6: "\<forall>n. isl (failing_fetcher n)" by (simp add: failing_fetcher_def)
  have 7: "undefined_fetcher 0 = Inr JUndefined" by (simp add: undefined_fetcher_def)
  have 8: "getOrSet demo_service empty_store ''k'' undefined_fetcher 0 None None
        = (Inr JUndefined, empty_store, 1)"
    using getOrSet_on_errors[of demo_service empty_store "''k''" SyntaxError
            undefined_fetcher 0 "JNum 7" None None] 5 7 by simp
  show ?thesis
    using getOrSet_on_errors[of demo_service corrupt_store "''k''" SyntaxError seven 0 "JNum 7"
            "Some 60" None]
          getOrSet_on_errors[of demo_service empty_store "''k''" SyntaxError
            failing_fetcher 0 "JNum 7" None None]
          corrupt_get 1 2 3 4 5 6 7 8
    by blast
qed

lemma db_lookup_advance:
  "db_lookup s k = Some (x, Some T) \<Longrightarrow> clock s + d < T \<Longrightarrow>
   db_lookup (advance d s) k = Some (x, Some T)"
  by (auto simp: db_lookup_def advance_def expired_def split: option.splits if_splits)

lemma online_advance [simp]: "online (advance d s) = online s"
  by (simp add: advance_def)

lemma clock_advance [simp]: "clock (advance d s) = clock s + d"
  by (simp add: advance_def)

lemma cache_get_live:
  assumes "online s" and "serializable v"
    and "db_lookup s (generateKey svc key None) = Some (RString (compress (ser v)), e)"
  shows "cache_get svc s key None = v"
  using cache_get_stored[OF assms] by (simp add: cache_get_def)

lemma getOrSet_seq_hits:
  assumes "serializable v" and "v \<noteq> JNull"
  shows "online s \<Longrightarrow>
     db_lookup s (generateKey svc key None) = Some (RString (compress (ser v)), Some T) \<Longrightarrow>
     clock s + sum_list ds < T \<Longrightarrow>
     fst (getOrSet_seq svc s key fetcher calls ttl tags ds) = replicate (length ds) (Inr v)
     \<and> snd (snd (getOrSet_seq svc s key fetcher calls ttl tags ds)) = calls"
proof (induction ds arbitrary: s)
  case Nil
  show ?case by simp
next
  case (Cons d ds)
  let ?s = "advance d s"
  have lk: "db_lookup ?s (generateKey svc key None) = Some (RString (compress (ser v)), Some T)"
    using Cons.prems(2,3) by (intro db_lookup_advance) simp_all
  have on: "online ?s" using Cons.prems(1) by simp
  have "cache_get svc ?s key None = v" by (rule cache_get_live[OF on assms(1) lk])
  then have g: "getOrSet svc ?s key fetcher calls ttl tags = (Inr v, ?s, calls)"
    using assms(2) by (rule getOrSet_hit)
  have "clock ?s + sum_list ds < T" using Cons.prems(3) by simp
  from Cons.IH[OF on lk this] show ?case by (simp add: g Let_def)
qed

text \<open>
  Claim C5, as amended. On a connected store, let the first of \<open>N\<close> sequential
  \<^verbatim>\<open>getOrSet\<close> calls miss, let the first result of the fetcher be a JSON-serializable
  value other than \<^verbatim>\<open>null\<close>, and let the effective time to live be at least one second.
  If the time that passes after the first call is less than the time to live, every call
  returns that value and the fetcher has been invoked exactly once.
\<close>

theorem getOrSet_fetches_once:
  assumes "online s" and "fetcher calls = Inr v" and "serializable v" and "v \<noteq> JNull"
    and "1 \<le> effective_ttl svc ttl"
    and "cache_get svc (advance d s) key None = JNull"
    and "sum_list ds < nat (effective_ttl svc ttl)"
  shows "fst (getOrSet_seq svc s key fetcher calls ttl tags (d # ds))
           = replicate (Suc (length ds)) (Inr v)
       \<and> snd (snd (getOrSet_seq svc s key fetcher calls ttl tags (d # ds))) = Suc calls"
proof -
  let ?s = "advance d s"
  let ?s1 = "snd (cache_set svc ?s key v ttl tags)"
  have on: "online ?s" using assms(1) by simp
  have g: "getOrSet svc ?s key fetcher calls ttl tags = (Inr v, ?s1, Suc calls)"
    using assms(6,2) by (rule getOrSet_miss)
  note st = cache_set_stores[OF on assms(3,5), of key tags]
  have lk: "db_lookup ?s1 (generateKey svc key None)
      = Some (RString (compress (ser v)), Some (clock ?s + nat (effective_ttl svc ttl)))"
    using st by simp
  have on1: "online ?s1" using st by simp
  have c: "clock ?s1 + sum_list ds < clock ?s + nat (effective_ttl svc ttl)"
    using st assms(7) by simp
  from getOrSet_seq_hits[OF assms(3,4) on1 lk c, of fetcher "Suc calls" ttl tags]
  show ?thesis by (simp add: g Let_def)
qed

text \<open>
  Claim C5 as it is stated fails for a fetcher whose result is \<^verbatim>\<open>null\<close>: \<^verbatim>\<open>null\<close> is
  also what \<^verbatim>\<open>get\<close> returns for a miss, so the second call fetches again: two calls
  within the time to live, two invocations.
\<close>

theorem getOrSet_refetches_null:
  "fst (getOrSet_seq demo_service empty_store ''k'' null_fetcher 0 (Some 60) None [0, 0])
     = [Inr JNull, Inr JNull]
   \<and> snd (snd (getOrSet_seq demo_service empty_store ''k'' null_fetcher 0 (Some 60) None [0, 0])) = 2"
  by (simp add: getOrSet_def cache_get_def cache_get_try_def redis_get_def cache_set_def
        json_stringify_def pipeline_exec_def set_commands_def effective_ttl_def generateKey_def
        db_store_def db_lookup_def expired_def advance_def compress_def compressionThreshold_def
        js_length_def utf16_units_def decompress_def json_parse_def skip_ws_def is_ws_def
        parse_literal_def null_fetcher_def demo_service_def empty_store_def Let_def)

text \<open>
  Claim C5, the theorem at four calls on an empty store, 59 of the 60 seconds passing
  after the first.
\<close>

theorem getOrSet_fetches_once_witness:
  "online empty_store \<and> seven 0 = Inr (JNum 7) \<and> serializable (JNum 7) \<and> JNum 7 \<noteq> JNull
   \<and> 1 \<le> effective_ttl demo_service (Some 60)
   \<and> cache_get demo_service (advance 0 empty_store) ''k'' None = JNull
   \<and> sum_list [10, 20, 29] < nat (effective_ttl demo_service (Some 60))
   \<and> fst (getOrSet_seq demo_service empty_store ''k'' seven 0 (Some 60) None [0, 10, 20, 29])
        = [Inr (JNum 7), Inr (JNum 7), Inr (JNum 7), Inr (JNum 7)]
   \<and> snd (snd (getOrSet_seq demo_service empty_store ''k'' seven 0 (Some 60) None [0, 10, 20, 29])) = 1"
proof -
  have 1: "online empty_store" by (simp add: empty_store_def)
  have 2: "seven 0 = Inr (JNum 7)" by (simp add: seven_def)
  have 3: "serializable (JNum 7)" "JNum 7 \<noteq> JNull" by simp_all
  have 4: "1 \<le> effective_ttl demo_service (Some 60)" by (simp add: effective_ttl_def)
  have 5: "cache_get demo_service (advance 0 empty_store) ''k'' None = JNull"
    by (simp add: cache_get_def cache_get_try_def redis_get_def empty_store_def db_lookup_def
          advance_def)
  have 6: "sum_list [10, 20, 29] < nat (effective_ttl demo_service (Some 60))"
    by (simp add: effective_ttl_def)
  from getOrSet_fetches_once[where s = empty_store and fetcher = seven and calls = 0
        and v = "JNum 7" and svc = demo_service and ttl = "Some 60" and d = 0 and key = "''k''"
        and ds = "[10, 20, 29]" and tags = None, OF 1 2 3 4 5 6]
  show ?thesis using 1 2 3 4 5 6 by (simp add: numeral_eq_Suc)
qed

section \<open>Tags, expiry and the middleware's lookup\<close>

lemma shared_tag_store_eval:
  "shared_tag_store =
     \<lparr>db = [(''app:key3'', RString (ser (JStr ''value3'')), Some 60),
            (''app:tag:tag1'', RSet [''app:key3''], Some 60),
            (''app:tag:tag2'', RSet [''app:key3''], Some 60)],
      clock = 0, online = True\<rparr>"
  by (simp add: shared_tag_store_def cache_set_def json_stringify_def demo_service_def
        empty_store_def pipeline_exec_def set_commands_def effective_ttl_def generateKey_def
        tag_key_def db_store_def db_lookup_def expired_def compress_def compressionThreshold_def
        js_length_def utf16_units_def json_quote_def quote_chars_plain json_escape_def Let_def)

text \<open>
  Claim C2: \<^verbatim>\<open>invalidateByTags\<close> returns the number of cache entries it removed. The
  code adds up the sizes of the tag sets it read instead. Here one entry is stored under
  two tags, so the store holds that entry and the two tag sets; invalidating both tags
  removes the one entry and returns 2.
\<close>

theorem invalidateByTags_counts_memberships:
  "live_keys shared_tag_store = [''app:key3'', ''app:tag:tag1'', ''app:tag:tag2'']
   \<and> invalidateByTags demo_service shared_tag_store [''tag1'', ''tag2''] = (2, empty_store)"
  unfolding shared_tag_store_eval
  by (simp add: live_keys_def db_lookup_def expired_def invalidateByTags_def tag_key_def
        generateKey_def demo_service_def redis_smembers_def pipeline_exec_def db_remove_def
        empty_store_def)

lemma first_write_store_eval:
  "first_write_store =
     \<lparr>db = [(''app:k1'', RString ''1'', Some 1000),
            (''app:tag:t'', RSet [''app:k1''], Some 1000)],
      clock = 0, online = True\<rparr>"
  by (simp add: first_write_store_def cache_set_def json_stringify_def demo_service_def
        empty_store_def pipeline_exec_def set_commands_def effective_ttl_def generateKey_def
        tag_key_def db_store_def db_lookup_def expired_def compress_def compressionThreshold_def
        js_length_def utf16_units_def show_int_def show_nat.simps char_eq_nat Let_def)

lemma mixed_ttl_store_eval:
  "mixed_ttl_store =
     \<lparr>db = [(''app:k1'', RString ''1'', Some 1000),
            (''app:tag:t'', RSet [''app:k1'', ''app:k2''], Some 10),
            (''app:k2'', RString ''2'', Some 10)],
      clock = 0, online = True\<rparr>"
  unfolding mixed_ttl_store_def first_write_store_eval
  by (simp add: cache_set_def json_stringify_def demo_service_def
        empty_store_def pipeline_exec_def set_commands_def effective_ttl_def generateKey_def
        tag_key_def db_store_def db_lookup_def expired_def compress_def compressionThreshold_def
        js_length_def utf16_units_def show_int_def show_nat.simps char_eq_nat Let_def)

text \<open>
  Claim C3: a write under a tag refreshes the expiry of the tag set to at least the time
  to live of the entry, and a later write with a shorter time to live never shortens it
  below the remaining lifetime of its longest-lived member. \<^verbatim>\<open>set\<close> sends EXPIRE with
  the time to live of the write at hand, whatever the tag set had before: after \<^verbatim>\<open>k1\<close>
  with 1000 seconds, the tag set has 1000 seconds; after \<^verbatim>\<open>k2\<close> with 10 seconds under the
  same tag, it has 10. Ten seconds later the tag set is gone while \<^verbatim>\<open>k1\<close> lives on:
  invalidating the tag removes nothing and \<^verbatim>\<open>k1\<close> is still served.
\<close>

theorem tag_set_expiry_shortened:
  "db_lookup first_write_store ''app:tag:t'' = Some (RSet [''app:k1''], Some 1000)
   \<and> db_lookup mixed_ttl_store ''app:tag:t'' = Some (RSet [''app:k1'', ''app:k2''], Some 10)
   \<and> db_lookup mixed_ttl_store ''app:k1'' = Some (RString ''1'', Some 1000)
   \<and> invalidateByTags demo_service (advance 10 mixed_ttl_store) [''t'']
        = (0, advance 10 mixed_ttl_store)
   \<and> cache_get demo_service (advance 10 mixed_ttl_store) ''k1'' None = JNum 1"
  unfolding mixed_ttl_store_eval first_write_store_eval
  by (simp add: db_lookup_def expired_def invalidateByTags_def tag_key_def generateKey_def
        demo_service_def redis_smembers_def advance_def cache_get_def cache_get_try_def
        redis_get_def decompress_def json_parse_def skip_ws_def is_ws_def parse_number_def
        is_digit_def digits_val_def)

lemma users_key: "generate_key md5hex default_config users_request = ''GET:/users''"
  by (simp add: generate_key_def default_config_def default_key_def users_request_def
        query_string_def truthy_id_def)

lemma auto_get_try_returns: "\<exists>r. auto_get_try cfg key s = Inr r"
  by (simp add: auto_get_try_def Let_def)

lemma never_error_header:
  "(''X-Cache'', ''ERROR'') \<notin> set (headers (cacheMiddleware md5hex cfg req s))"
proof -
  obtain r where r: "auto_get_try cfg (generate_key md5hex cfg req) s = Inr r"
    using auto_get_try_returns by blast
  then have "(''X-Cache'', ''ERROR'') \<notin> set (headers r)"
    by (auto simp: auto_get_try_def Let_def split: if_splits)
  then show ?thesis
    by (simp add: cacheMiddleware_def auto_get_def r pass_through_def)
qed

text \<open>
  Claim C6: a lookup that fails is answered with \<^verbatim>\<open>X-Cache: ERROR\<close> and the response is
  not cached. In the code the failure never reaches the middleware, since \<^verbatim>\<open>get\<close>
  returns \<^verbatim>\<open>null\<close> for it. With the store disconnected the middleware sets
  \<^verbatim>\<open>X-Cache: MISS\<close> and installs the wrapper that stores the response; with an entry that
  is not JSON the response of the handler is stored in its place; and no request at all
  is given the header \<^verbatim>\<open>X-Cache: ERROR\<close>.
\<close>

theorem lookup_error_reported_as_miss:
  "cache_get_try (request_cache default_config) offline_store ''GET:/users'' None
     = Inl ConnectionError
   \<and> cacheMiddleware md5hex default_config users_request offline_store
     = \<lparr>headers = [(''X-Cache'', ''MISS''), (''X-Cache-Key'', ''GET:/users'')],
        cacheKey = Some ''GET:/users'', outcome = CallNext, json_wrapped = True\<rparr>
   \<and> cache_get_try (request_cache default_config) corrupt_users_store ''GET:/users'' None
     = Inl SyntaxError
   \<and> fst (serve md5hex default_config fresh_handler users_request corrupt_users_store)
     = [(''X-Cache'', ''MISS''), (''X-Cache-Key'', ''GET:/users'')]
   \<and> db_lookup (snd (snd (serve md5hex default_config fresh_handler users_request
                             corrupt_users_store))) ''app:GET:/users''
     = Some (RString (ser (JStr ''fresh'')), Some 3600)
   \<and> (''X-Cache'', ''ERROR'') \<notin> set (headers (cacheMiddleware md5hex cfg req s))"
proof -
  have 1: "cache_get_try (request_cache default_config) offline_store ''GET:/users'' None
     = Inl ConnectionError"
    by (simp add: cache_get_try_def redis_get_def offline_store_def)
  have 2: "cache_get_try (request_cache default_config) corrupt_users_store ''GET:/users'' None
     = Inl SyntaxError"
    by (simp add: cache_get_try_def redis_get_def corrupt_users_store_def request_cache_def
        default_config_def generateKey_def db_lookup_def expired_def decompress_def
        json_parse_def skip_ws_def is_ws_def parse_number_def is_digit_def)
  have m: "cacheMiddleware md5hex default_config users_request s
     = auto_get default_config ''GET:/users'' s" for s
    by (simp add: cacheMiddleware_def users_key) (simp add: default_config_def users_request_def)
  have 3: "cacheMiddleware md5hex default_config users_request offline_store
     = \<lparr>headers = [(''X-Cache'', ''MISS''), (''X-Cache-Key'', ''GET:/users'')],
        cacheKey = Some ''GET:/users'', outcome = CallNext, json_wrapped = True\<rparr>"
    by (simp add: m auto_get_def auto_get_try_def cache_get_def 1)
  have 4: "cacheMiddleware md5hex default_config users_request corrupt_users_store
     = \<lparr>headers = [(''X-Cache'', ''MISS''), (''X-Cache-Key'', ''GET:/users'')],
        cacheKey = Some ''GET:/users'', outcome = CallNext, json_wrapped = True\<rparr>"
    by (simp add: m auto_get_def auto_get_try_def cache_get_def 2)
  have 5: "db_lookup (snd (cache_set (request_cache default_config) corrupt_users_store ''GET:/users''
              (JStr ''fresh'') (Some 3600) (Some []))) ''app:GET:/users''
      = Some (RString (ser (JStr ''fresh'')), Some 3600)"
    using cache_set_stores[of corrupt_users_store "JStr ''fresh''" "request_cache default_config"
            "Some 3600" "''GET:/users''" "Some []"]
    by (simp add: corrupt_users_store_def request_cache_def default_config_def generateKey_def
          effective_ttl_def compress_def compressionThreshold_def js_length_def utf16_units_def
          json_quote_def quote_chars_plain json_escape_def)
  have 6: "serve md5hex default_config fresh_handler users_request corrupt_users_store
      = ([(''X-Cache'', ''MISS''), (''X-Cache-Key'', ''GET:/users'')], JStr ''fresh'',
         snd (cache_set (request_cache default_config) corrupt_users_store ''GET:/users''
              (JStr ''fresh'') (Some 3600) (Some [])))"
    by (simp add: serve_def 4 wrapped_json_def fresh_handler_def) (simp add: default_config_def)
  show ?thesis using 1 2 3 5 never_error_header by (simp add: 6)
qed

section \<open>Namespaces\<close>





























































end
